theory Spec2Isabelle
  imports Main "HOL-Library.Word" "HOL-Library.Product_Lexorder"
begin

section \<open>The LRU cache of src/common/lru_cache.h\<close>

text \<open>
  \<open>LruCacheBase\<close> keeps two containers over the same entries:
  \<^item> \<open>keysToTimeAndValue\<close>, a (hashed or ordered) map from the key tuple to the pair
    (time stamp, value);
  \<^item> \<open>timeToKeys\<close>, a \<open>std::set\<close> of pairs (time stamp, pointer to the key tuple stored
    in the node of the first container).
  The second container compares its elements with \<open>operator<\<close> of \<open>std::pair\<close>: first the
  time stamp, then the pointer. Pointers are therefore part of the model: every node of
  the first container lives at an address, and the key object found at an address is
  recorded in \<open>keyObjects\<close>.

  The members are named as in the source, without the trailing underscore (which an
  Isabelle name cannot have).

  \<open>uint64_t\<close> is \<open>64 word\<close>; an address is a natural number.
\<close>

text \<open>
  Modelled from the spec: \<open>SteadyTimePoint\<close> and \<open>SteadyDuration\<close> are declared in
  common/time_utils.h, which is not among the sources. The specification takes the clock
  as "an opaque monotonic timestamp type with a well-ordered, subtractable duration";
  both are integers here (a count of clock ticks), without a bound, so that
  \<open>ts + maxTime\<close> does not overflow.
\<close>

type_synonym SteadyTimePoint = int
type_synonym SteadyDuration = int
type_synonym ptr = nat

record ('k, 'v) LruCacheBase =
  maxTime :: SteadyDuration
  maxElements :: "64 word"
  keysToTimeAndValue :: "'k \<rightharpoonup> ptr \<times> SteadyTimePoint \<times> 'v"
    \<comment> \<open>the node found for a key: the address of its key object, and the mapped pair\<close>
  timeToKeys :: "(SteadyTimePoint \<times> ptr) list"
    \<comment> \<open>the \<open>std::set\<close>, as the list of its elements in ascending order\<close>
  keyObjects :: "ptr \<rightharpoonup> 'k"
    \<comment> \<open>the key objects of the live nodes of \<open>keysToTimeAndValue\<close>, by address\<close>

text \<open>The constructor (lines 34-36): both containers start empty.\<close>

definition LruCacheBase :: "SteadyDuration \<Rightarrow> 64 word \<Rightarrow> ('k, 'v) LruCacheBase" where
  "LruCacheBase maxTime' maxElements' =
     \<lparr>maxTime = maxTime', maxElements = maxElements',
      keysToTimeAndValue = Map.empty, timeToKeys = [], keyObjects = Map.empty\<rparr>"

subsection \<open>What a call meets outside the cache\<close>

text \<open>
  Modelled from the spec: \<open>sassert\<close> is defined in common/massert.h, which is not among
  the sources. By the specification a mismatch between the two containers "must
  abort/assert rather than attempt repair": \<open>sassert\<close> evaluates its argument, and when it
  is false the process is aborted and there is no state afterwards (\<open>Abort\<close>, \<open>Fatal\<close> and
  \<open>None\<close> below).

  An exception is either the one of the value obtainer or the one of a failed insertion
  (\<open>std::bad_alloc\<close>).

  Everything a call of \<open>get\<close> receives from outside is collected in a record:
  \<^item> \<open>valueObtainer\<close>: what the obtainer does for these keys at this call (it returns a value
    or throws);
  \<^item> \<open>movedFrom\<close>: the state in which the move constructor of \<open>Value\<close> leaves its source
    (the identity for a scalar \<open>Value\<close>, the empty string for \<open>std::string\<close>, the null
    pointer for a smart pointer);
  \<^item> \<open>allocNode\<close>: the address the allocator gives to the new node of
    \<open>keysToTimeAndValue\<close>, given the key objects alive, or \<open>None\<close> when the insertion
    throws;
  \<^item> \<open>allocTime\<close>: whether the insertion into \<open>timeToKeys\<close> gets its memory.
\<close>

datatype exn = ObtainerFailure | ResourceExhaustion

datatype ('c, 'v) result = Return 'v 'c | Throw exn 'c | Abort

record ('k, 'v) outside =
  valueObtainer :: "'k \<Rightarrow> exn + 'v"
  movedFrom :: "'v \<Rightarrow> 'v"
  allocNode :: "(ptr \<rightharpoonup> 'k) \<Rightarrow> ptr option"
  allocTime :: bool

text \<open>An allocator never hands out an address that is in use.\<close>

definition allocator_ok :: "('k, 'v) outside \<Rightarrow> bool" where
  "allocator_ok env \<longleftrightarrow> (\<forall>h p. allocNode env h = Some p \<longrightarrow> h p = None)"

subsection \<open>The operations on \<open>std::set\<close>\<close>

definition set_erase :: "'a \<Rightarrow> 'a list \<Rightarrow> nat \<times> 'a list" where
  "set_erase x xs = (if x \<in> set xs then (1, remove1 x xs) else (0, xs))"

definition set_insert :: "'a::linorder \<Rightarrow> 'a list \<Rightarrow> 'a list" where
  "set_insert x xs = (if x \<in> set xs then xs else insort x xs)"

subsection \<open>cleanupWithoutLocking (lines 125-140)\<close>

datatype 'c iteration = Continue 'c | Break 'c | Fatal

text \<open>
  The body of the loop, lines 127-138. \<open>*keyTuplePtr\<close> reads the key object at the
  address; should nothing live there, or should the erase not remove exactly one node
  (\<open>sassert\<close>), the process does not go on. Erasing a node of \<open>keysToTimeAndValue\<close> frees
  its key object.
\<close>

definition cleanup_body ::
  "SteadyTimePoint \<Rightarrow> ('k, 'v) LruCacheBase \<Rightarrow> ('k, 'v) LruCacheBase iteration" where
  "cleanup_body currentTs c =
     (case timeToKeys c of
        [] \<Rightarrow> Break c
      | (ts, keyTuplePtr) # rest \<Rightarrow>
          if ts + maxTime c < currentTs \<or> length (timeToKeys c) > unat (maxElements c) then
            (case keyObjects c keyTuplePtr of
               None \<Rightarrow> Fatal
             | Some key \<Rightarrow>
                 (case keysToTimeAndValue c key of
                    None \<Rightarrow> Fatal
                  | Some (node, _) \<Rightarrow>
                      Continue (c\<lparr>timeToKeys := rest,
                                  keysToTimeAndValue := (keysToTimeAndValue c)(key := None),
                                  keyObjects := (keyObjects c)(node := None)\<rparr>)))
          else Break c)"

function cleanup_loop ::
  "SteadyTimePoint \<Rightarrow> 64 word \<Rightarrow> 64 word \<Rightarrow> ('k, 'v) LruCacheBase \<Rightarrow> ('k, 'v) LruCacheBase option"
  where
  "cleanup_loop currentTs maxOperations i c =
     (if i < maxOperations then
        (case cleanup_body currentTs c of
           Continue c' \<Rightarrow> cleanup_loop currentTs maxOperations (i + 1) c'
         | Break c' \<Rightarrow> Some c'
         | Fatal \<Rightarrow> None)
      else Some c)"
  by pat_completeness auto
termination
proof (relation "measure (\<lambda>(currentTs, maxOperations, i, c). unat maxOperations - unat i)")
  show "wf (measure (\<lambda>(currentTs, maxOperations, i, c). unat maxOperations - unat i))"
    by simp
next
  fix currentTs :: SteadyTimePoint and maxOperations i :: "64 word"
    and c x2 :: "('k, 'v) LruCacheBase"
  assume less: "i < maxOperations"
  then have "unat (i + 1) = Suc (unat i)"
    by unat_arith
  moreover from less have "unat i < unat maxOperations"
    by (simp add: word_less_nat_alt)
  ultimately show "((currentTs, maxOperations, i + 1, x2), (currentTs, maxOperations, i, c))
      \<in> measure (\<lambda>(currentTs, maxOperations, i, c). unat maxOperations - unat i)"
    by simp
qed

definition cleanupWithoutLocking ::
  "SteadyTimePoint \<Rightarrow> 64 word \<Rightarrow> ('k, 'v) LruCacheBase \<Rightarrow> ('k, 'v) LruCacheBase option" where
  "cleanupWithoutLocking currentTs maxOperations c = cleanup_loop currentTs maxOperations 0 c"

text \<open>cleanup (lines 99-102) only takes the lock around it.\<close>

definition cleanup ::
  "SteadyTimePoint \<Rightarrow> 64 word \<Rightarrow> ('k, 'v) LruCacheBase \<Rightarrow> ('k, 'v) LruCacheBase option" where
  "cleanup currentTs maxOperations c = cleanupWithoutLocking currentTs maxOperations c"

subsection \<open>erase (lines 107-119)\<close>

definition erase :: "'k \<Rightarrow> ('k, 'v) LruCacheBase \<Rightarrow> ('k, 'v) LruCacheBase option" where
  "erase keyTuple c =
     (case keysToTimeAndValue c keyTuple of
        None \<Rightarrow> Some c
      | Some (keyTuplePointer, ts, _) \<Rightarrow>
          (case set_erase (ts, keyTuplePointer) (timeToKeys c) of
             (n, timeToKeys') \<Rightarrow>
               if n = 1 then
                 Some (c\<lparr>timeToKeys := timeToKeys',
                         keysToTimeAndValue := (keysToTimeAndValue c)(keyTuple := None),
                         keyObjects := (keyObjects c)(keyTuplePointer := None)\<rparr>)
               else None))"

subsection \<open>get (lines 44-90)\<close>

text \<open>
  Lines 64-89, from the moment the lock is taken again with the obtained value in hand.
  The cache met here is the one left at line 59 when nothing else touched it while the
  lock was released, and any other one when something did.

  Line 73 moves \<open>value\<close> into the pair that is inserted; line 89 returns \<open>value\<close>, by then
  moved from. The catch block erases the key from \<open>keysToTimeAndValue\<close> and throws again.
\<close>

definition get_fill ::
  "('k, 'v) outside \<Rightarrow> SteadyTimePoint \<Rightarrow> 'k \<Rightarrow> 'v \<Rightarrow> ('k, 'v) LruCacheBase
     \<Rightarrow> (('k, 'v) LruCacheBase, 'v) result" where
  "get_fill env currentTs keyTuple value c =
     (case keysToTimeAndValue c keyTuple of
        Some _ \<Rightarrow> Return value c
      | None \<Rightarrow>
          (case allocNode env (keyObjects c) of
             None \<Rightarrow> Throw ResourceExhaustion c
           | Some keysTuplePointer \<Rightarrow>
               let c1 = c\<lparr>keysToTimeAndValue :=
                             (keysToTimeAndValue c)(keyTuple \<mapsto> (keysTuplePointer, currentTs, value)),
                          keyObjects := (keyObjects c)(keysTuplePointer \<mapsto> keyTuple)\<rparr>
               in if allocTime env then
                    (case cleanupWithoutLocking currentTs 3
                            (c1\<lparr>timeToKeys :=
                                  set_insert (currentTs, keysTuplePointer) (timeToKeys c1)\<rparr>) of
                       None \<Rightarrow> Abort
                     | Some c2 \<Rightarrow> Return (movedFrom env value) c2)
                  else
                    Throw ResourceExhaustion
                      (c1\<lparr>keysToTimeAndValue := (keysToTimeAndValue c1)(keyTuple := None),
                          keyObjects := (keyObjects c1)(keysTuplePointer := None)\<rparr>)))"

text \<open>
  Lines 61-63: the obtainer is called, outside the lock. Next to the result stands the list
  of the key tuples the obtainer was invoked with during the call.
\<close>

definition get_obtain ::
  "('k, 'v) outside \<Rightarrow> SteadyTimePoint \<Rightarrow> 'k \<Rightarrow> ('k, 'v) LruCacheBase
     \<Rightarrow> (('k, 'v) LruCacheBase, 'v) result \<times> 'k list" where
  "get_obtain env currentTs keyTuple c =
     (case valueObtainer env keyTuple of
        Inl e \<Rightarrow> (Throw e c, [keyTuple])
      | Inr value \<Rightarrow> (get_fill env currentTs keyTuple value c, [keyTuple]))"

text \<open>
  The whole of \<open>get\<close>, for one thread and an obtainer that does not enter the cache:
  lines 45-59, then the obtainer, then lines 64-89 on the cache as line 59 left it.
\<close>

definition get ::
  "('k, 'v) outside \<Rightarrow> SteadyTimePoint \<Rightarrow> 'k \<Rightarrow> ('k, 'v) LruCacheBase
     \<Rightarrow> (('k, 'v) LruCacheBase, 'v) result \<times> 'k list" where
  "get env currentTs keyTuple c =
     (case keysToTimeAndValue c keyTuple of
        None \<Rightarrow> get_obtain env currentTs keyTuple c
      | Some (keyTuplePointer, ts, value) \<Rightarrow>
          if ts + maxTime c \<ge> currentTs then (Return value c, [])
          else
            (case set_erase (ts, keyTuplePointer) (timeToKeys c) of
               (n, timeToKeys') \<Rightarrow>
                 if n = 1 then
                   get_obtain env currentTs keyTuple
                     (c\<lparr>timeToKeys := timeToKeys',
                        keysToTimeAndValue := (keysToTimeAndValue c)(keyTuple := None),
                        keyObjects := (keyObjects c)(keyTuplePointer := None)\<rparr>)
                 else (Abort, [])))"

subsection \<open>The states of a cache used by one thread\<close>

text \<open>
  A cache is built by the constructor and then used through \<open>get\<close>, \<open>cleanup\<close> and
  \<open>erase\<close>. A call that aborts the process leaves no cache behind.
\<close>

inductive reachable :: "('k, 'v) LruCacheBase \<Rightarrow> bool" where
  constructed: "reachable (LruCacheBase maxTime' maxElements')"
| after_get:
    "reachable c \<Longrightarrow> allocator_ok env \<Longrightarrow> get env currentTs keyTuple c = (Return v c', calls)
      \<Longrightarrow> reachable c'"
| after_failed_get:
    "reachable c \<Longrightarrow> allocator_ok env \<Longrightarrow> get env currentTs keyTuple c = (Throw e c', calls)
      \<Longrightarrow> reachable c'"
| after_cleanup:
    "reachable c \<Longrightarrow> cleanup currentTs maxOperations c = Some c' \<Longrightarrow> reachable c'"
| after_erase:
    "reachable c \<Longrightarrow> erase keyTuple c = Some c' \<Longrightarrow> reachable c'"

text \<open>
  The two containers agree: a node of the map has its pair in the set, with its time
  stamp and the address of its key object; a pair of the set points to the key object of
  a node with that time stamp; no key object outlives its node; and the set is a set,
  in ascending order.
\<close>

definition consistent :: "('k, 'v) LruCacheBase \<Rightarrow> bool" where
  "consistent c \<longleftrightarrow>
     (\<forall>k p ts v. keysToTimeAndValue c k = Some (p, ts, v)
        \<longrightarrow> (ts, p) \<in> set (timeToKeys c) \<and> keyObjects c p = Some k) \<and>
     (\<forall>ts p. (ts, p) \<in> set (timeToKeys c)
        \<longrightarrow> (\<exists>k v. keyObjects c p = Some k \<and> keysToTimeAndValue c k = Some (p, ts, v))) \<and>
     (\<forall>p k. keyObjects c p = Some k \<longrightarrow> (\<exists>ts v. keysToTimeAndValue c k = Some (p, ts, v))) \<and>
     sorted (timeToKeys c) \<and> distinct (timeToKeys c)"

text \<open>The loop of \<open>cleanupWithoutLocking\<close>, counted down in natural numbers.\<close>

fun cleanup_n ::
  "SteadyTimePoint \<Rightarrow> nat \<Rightarrow> ('k, 'v) LruCacheBase \<Rightarrow> ('k, 'v) LruCacheBase option" where
  "cleanup_n currentTs 0 c = Some c"
| "cleanup_n currentTs (Suc n) c =
     (case cleanup_body currentTs c of
        Continue c' \<Rightarrow> cleanup_n currentTs n c'
      | Break c' \<Rightarrow> Some c'
      | Fatal \<Rightarrow> None)"

text \<open>Taking the entry of a key out of both containers.\<close>

definition without ::
  "'k \<Rightarrow> ptr \<Rightarrow> SteadyTimePoint \<Rightarrow> ('k, 'v) LruCacheBase \<Rightarrow> ('k, 'v) LruCacheBase" where
  "without k p ts c =
     c\<lparr>timeToKeys := remove1 (ts, p) (timeToKeys c),
       keysToTimeAndValue := (keysToTimeAndValue c)(k := None),
       keyObjects := (keyObjects c)(p := None)\<rparr>"

text \<open>Putting a new entry into both containers.\<close>

definition with_entry ::
  "'k \<Rightarrow> ptr \<Rightarrow> SteadyTimePoint \<Rightarrow> 'v \<Rightarrow> ('k, 'v) LruCacheBase \<Rightarrow> ('k, 'v) LruCacheBase" where
  "with_entry k p ts v c =
     c\<lparr>timeToKeys := insort (ts, p) (timeToKeys c),
       keysToTimeAndValue := (keysToTimeAndValue c)(k \<mapsto> (p, ts, v)),
       keyObjects := (keyObjects c)(p \<mapsto> k)\<rparr>"

text \<open>The pairs of the set that point to the key object of a given key.\<close>

definition entries_for :: "'k \<Rightarrow> ('k, 'v) LruCacheBase \<Rightarrow> (SteadyTimePoint \<times> ptr) list" where
  "entries_for k c = filter (\<lambda>(ts, p). keyObjects c p = Some k) (timeToKeys c)"

subsection \<open>An entry and the call that inserted it\<close>

text \<open>
  The entry of the key \<open>k\<close> in the cache \<open>c\<close> was inserted by a \<open>get\<close> at time \<open>T\<close>, for which
  the obtainer produced \<open>v\<close>, and has been cached ever since: every operation completed
  after the insertion left an entry for \<open>k\<close> in the map and was not a \<open>get\<close> that invoked the
  obtainer for \<open>k\<close> again (which would have put a new entry in its place).
\<close>

inductive cached_since ::
  "'k \<Rightarrow> SteadyTimePoint \<Rightarrow> 'v \<Rightarrow> ('k, 'v) LruCacheBase \<Rightarrow> bool" where
  inserted:
    "reachable c \<Longrightarrow> allocator_ok env \<Longrightarrow> valueObtainer env k = Inr v
      \<Longrightarrow> get env T k c = (Return r c', [k]) \<Longrightarrow> keysToTimeAndValue c' k \<noteq> None
      \<Longrightarrow> cached_since k T v c'"
| kept_by_get:
    "cached_since k T v c \<Longrightarrow> allocator_ok env
      \<Longrightarrow> get env currentTs keyTuple c = (Return r c', calls) \<Longrightarrow> k \<notin> set calls
      \<Longrightarrow> keysToTimeAndValue c' k \<noteq> None \<Longrightarrow> cached_since k T v c'"
| kept_by_failed_get:
    "cached_since k T v c \<Longrightarrow> allocator_ok env
      \<Longrightarrow> get env currentTs keyTuple c = (Throw e c', calls) \<Longrightarrow> k \<notin> set calls
      \<Longrightarrow> keysToTimeAndValue c' k \<noteq> None \<Longrightarrow> cached_since k T v c'"
| kept_by_cleanup:
    "cached_since k T v c \<Longrightarrow> cleanup currentTs maxOperations c = Some c'
      \<Longrightarrow> keysToTimeAndValue c' k \<noteq> None \<Longrightarrow> cached_since k T v c'"
| kept_by_erase:
    "cached_since k T v c \<Longrightarrow> erase keyTuple c = Some c'
      \<Longrightarrow> keysToTimeAndValue c' k \<noteq> None \<Longrightarrow> cached_since k T v c'"

subsection \<open>Caches and calls used as examples\<close>

text \<open>
  A call whose obtainer returns \<open>v\<close>, for a \<open>Value\<close> type whose move leaves the source as
  it is, with an allocator that hands out the address \<open>p\<close> when it is free.
\<close>

definition at_address :: "ptr \<Rightarrow> 'v \<Rightarrow> ('k, 'v) outside" where
  "at_address p v =
     \<lparr>valueObtainer = (\<lambda>k. Inr v), movedFrom = (\<lambda>w. w),
      allocNode = (\<lambda>h. if h p = None then Some p else None), allocTime = True\<rparr>"

text \<open>The cache with maximal age 10 and capacity 2 after \<open>get\<close> for the key A at time 0.\<close>

definition cache_A :: "(string, string) LruCacheBase" where
  "cache_A =
     \<lparr>maxTime = 10, maxElements = 2,
      keysToTimeAndValue = [''A'' \<mapsto> (100, 0, ''A!'')],
      timeToKeys = [(0, 100)],
      keyObjects = [100 \<mapsto> ''A'']\<rparr>"

text \<open>
  Two keys inserted at the same time 0, the smaller key 1 at the larger address: the cache
  with maximal age 10 and capacity 2 after \<open>get\<close> for the key 1, whose node the allocator
  put at 100, and \<open>get\<close> for the key 2, whose node it put at 50; and the same cache with
  the key 1 alone.
\<close>

definition cache_1 :: "(nat, string) LruCacheBase" where
  "cache_1 =
     \<lparr>maxTime = 10, maxElements = 2,
      keysToTimeAndValue = [1 \<mapsto> (100, 0, ''one'')],
      timeToKeys = [(0, 100)],
      keyObjects = [100 \<mapsto> 1]\<rparr>"

definition cache_tie :: "(nat, string) LruCacheBase" where
  "cache_tie =
     \<lparr>maxTime = 10, maxElements = 2,
      keysToTimeAndValue = [1 \<mapsto> (100, 0, ''one''), 2 \<mapsto> (50, 0, ''two'')],
      timeToKeys = [(0, 50), (0, 100)],
      keyObjects = [100 \<mapsto> 1, 50 \<mapsto> 2]\<rparr>"

subsection \<open>The eviction pass in the words of its description\<close>

text \<open>
  With a budget of attempts: look at the least pair of the set, first by time stamp and
  then by the address of the key object; stop when the set is empty; when that pair is
  stale or the set is larger than \<open>maxElements\<close>, take it out of the set and its key out of
  the map, and go on with one attempt less; otherwise stop.
\<close>

fun evict_oldest ::
  "SteadyTimePoint \<Rightarrow> nat \<Rightarrow> ('k, 'v) LruCacheBase \<Rightarrow> ('k, 'v) LruCacheBase" where
  "evict_oldest currentTs 0 c = c"
| "evict_oldest currentTs (Suc budget) c =
     (if timeToKeys c = [] then c
      else case Min (set (timeToKeys c)) of
        (ts, p) \<Rightarrow>
          if ts + maxTime c < currentTs \<or> unat (maxElements c) < length (timeToKeys c)
          then evict_oldest currentTs budget (without (the (keyObjects c p)) p ts c)
          else c)"


section \<open>The loop, counted down\<close>

declare cleanup_loop.simps [simp del]

lemma word_less_Suc: "(i::64 word) < m \<Longrightarrow> unat (i + 1) = Suc (unat i)"
  by unat_arith

lemma cleanup_loop_n:
  "cleanup_loop currentTs maxOperations i c = cleanup_n currentTs (unat maxOperations - unat i) c"
proof (induction currentTs maxOperations i c rule: cleanup_loop.induct)
  case (1 currentTs maxOperations i c)
  show ?case
  proof (cases "i < maxOperations")
    case True
    then have "unat maxOperations - unat i = Suc (unat maxOperations - unat (i + 1))"
      using word_less_Suc [OF True] by (simp add: word_less_nat_alt)
    with True 1 show ?thesis
      by (subst cleanup_loop.simps) (simp split: iteration.splits)
  next
    case False
    then have "unat maxOperations - unat i = 0"
      by (simp add: word_less_nat_alt)
    with False show ?thesis
      by (subst cleanup_loop.simps) simp
  qed
qed

lemma cleanupWithoutLocking_n:
  "cleanupWithoutLocking currentTs maxOperations c = cleanup_n currentTs (unat maxOperations) c"
  unfolding cleanupWithoutLocking_def cleanup_loop_n by simp

lemma unat_few: "unat (3 :: 64 word) = Suc (Suc (Suc 0))"
  by simp

lemma cleanupWithoutLocking_few:
  "cleanupWithoutLocking currentTs 3 c = cleanup_n currentTs (Suc (Suc (Suc 0))) c"
  by (simp only: cleanupWithoutLocking_n unat_few)

section \<open>Consistent caches\<close>

lemma consistentI:
  assumes "\<And>k p ts v. keysToTimeAndValue c k = Some (p, ts, v)
              \<Longrightarrow> (ts, p) \<in> set (timeToKeys c) \<and> keyObjects c p = Some k"
    and "\<And>ts p. (ts, p) \<in> set (timeToKeys c)
              \<Longrightarrow> \<exists>k v. keyObjects c p = Some k \<and> keysToTimeAndValue c k = Some (p, ts, v)"
    and "\<And>p k. keyObjects c p = Some k \<Longrightarrow> \<exists>ts v. keysToTimeAndValue c k = Some (p, ts, v)"
    and "sorted (timeToKeys c)" and "distinct (timeToKeys c)"
  shows "consistent c"
  using assms unfolding consistent_def by blast

lemma consistent_node:
  "consistent c \<Longrightarrow> keysToTimeAndValue c k = Some (p, ts, v)
    \<Longrightarrow> (ts, p) \<in> set (timeToKeys c) \<and> keyObjects c p = Some k"
  unfolding consistent_def by blast

lemma consistent_pair:
  "consistent c \<Longrightarrow> (ts, p) \<in> set (timeToKeys c)
    \<Longrightarrow> \<exists>k v. keyObjects c p = Some k \<and> keysToTimeAndValue c k = Some (p, ts, v)"
  unfolding consistent_def by blast

lemma consistent_key_object:
  "consistent c \<Longrightarrow> keyObjects c p = Some k \<Longrightarrow> \<exists>ts v. keysToTimeAndValue c k = Some (p, ts, v)"
  unfolding consistent_def by blast

lemma consistent_sorted: "consistent c \<Longrightarrow> sorted (timeToKeys c)"
  and consistent_distinct: "consistent c \<Longrightarrow> distinct (timeToKeys c)"
  unfolding consistent_def by blast+

lemma consistent_without:
  assumes c: "consistent c" and node: "keysToTimeAndValue c k = Some (p, ts, v)"
  shows "consistent (without k p ts c)"
proof (rule consistentI)
  note hp = consistent_node [OF c node]
  have set_eq: "set (timeToKeys (without k p ts c)) = set (timeToKeys c) - {(ts, p)}"
    using consistent_distinct [OF c] by (simp add: without_def)
  show "sorted (timeToKeys (without k p ts c))"
    using consistent_sorted [OF c] by (simp add: without_def sorted_remove1)
  show "distinct (timeToKeys (without k p ts c))"
    using consistent_distinct [OF c] by (simp add: without_def)
  show "(ts', p') \<in> set (timeToKeys (without k p ts c)) \<and> keyObjects (without k p ts c) p' = Some k'"
    if "keysToTimeAndValue (without k p ts c) k' = Some (p', ts', v')" for k' p' ts' v'
  proof -
    from that have k': "k' \<noteq> k" and n': "keysToTimeAndValue c k' = Some (p', ts', v')"
      by (auto simp: without_def split: if_splits)
    note hp' = consistent_node [OF c n']
    with hp k' have "p' \<noteq> p" by auto
    with hp' show ?thesis unfolding set_eq by (simp add: without_def)
  qed
  show "\<exists>k' v'. keyObjects (without k p ts c) p' = Some k'
          \<and> keysToTimeAndValue (without k p ts c) k' = Some (p', ts', v')"
    if "(ts', p') \<in> set (timeToKeys (without k p ts c))" for ts' p'
  proof -
    from that have mem: "(ts', p') \<in> set (timeToKeys c)" and ne: "(ts', p') \<noteq> (ts, p)"
      unfolding set_eq by auto
    from consistent_pair [OF c mem] obtain k' v'
      where h': "keyObjects c p' = Some k'" and n': "keysToTimeAndValue c k' = Some (p', ts', v')"
      by blast
    from n' node ne have "k' \<noteq> k" by auto
    moreover from this h' hp have "p' \<noteq> p" by auto
    ultimately show ?thesis using h' n' by (simp add: without_def)
  qed
  show "\<exists>ts' v'. keysToTimeAndValue (without k p ts c) k' = Some (p', ts', v')"
    if "keyObjects (without k p ts c) p' = Some k'" for p' k'
  proof -
    from that have p': "p' \<noteq> p" and h': "keyObjects c p' = Some k'"
      by (auto simp: without_def split: if_splits)
    from consistent_key_object [OF c h'] obtain ts' v'
      where n': "keysToTimeAndValue c k' = Some (p', ts', v')" by blast
    with node p' have "k' \<noteq> k" by auto
    with n' show ?thesis by (simp add: without_def)
  qed
qed

lemma consistent_with_entry:
  assumes c: "consistent c" and absent: "keysToTimeAndValue c k = None"
    and free: "keyObjects c p = None"
  shows "consistent (with_entry k p ts v c)"
proof (rule consistentI)
  have notin: "(ts, p) \<notin> set (timeToKeys c)"
    using consistent_pair [OF c, of ts p] free by auto
  have set_eq: "set (timeToKeys (with_entry k p ts v c)) = insert (ts, p) (set (timeToKeys c))"
    by (simp add: with_entry_def set_insort_key)
  show "sorted (timeToKeys (with_entry k p ts v c))"
    using consistent_sorted [OF c] by (simp add: with_entry_def sorted_insort)
  show "distinct (timeToKeys (with_entry k p ts v c))"
    using consistent_distinct [OF c] notin by (simp add: with_entry_def distinct_insort)
  show "(ts', p') \<in> set (timeToKeys (with_entry k p ts v c))
          \<and> keyObjects (with_entry k p ts v c) p' = Some k'"
    if "keysToTimeAndValue (with_entry k p ts v c) k' = Some (p', ts', v')" for k' p' ts' v'
  proof (cases "k' = k")
    case True
    with that show ?thesis unfolding set_eq by (simp add: with_entry_def)
  next
    case False
    with that have n': "keysToTimeAndValue c k' = Some (p', ts', v')"
      by (simp add: with_entry_def)
    note hp' = consistent_node [OF c n']
    with free have "p' \<noteq> p" by auto
    with hp' show ?thesis unfolding set_eq by (simp add: with_entry_def)
  qed
  show "\<exists>k' v'. keyObjects (with_entry k p ts v c) p' = Some k'
          \<and> keysToTimeAndValue (with_entry k p ts v c) k' = Some (p', ts', v')"
    if "(ts', p') \<in> set (timeToKeys (with_entry k p ts v c))" for ts' p'
  proof (cases "(ts', p') = (ts, p)")
    case True
    then show ?thesis by (simp add: with_entry_def)
  next
    case False
    with that have mem: "(ts', p') \<in> set (timeToKeys c)"
      unfolding set_eq by auto
    from consistent_pair [OF c mem] obtain k' v'
      where h': "keyObjects c p' = Some k'" and n': "keysToTimeAndValue c k' = Some (p', ts', v')"
      by blast
    from h' free have "p' \<noteq> p" by auto
    moreover from n' absent have "k' \<noteq> k" by auto
    ultimately show ?thesis using h' n' by (simp add: with_entry_def)
  qed
  show "\<exists>ts' v'. keysToTimeAndValue (with_entry k p ts v c) k' = Some (p', ts', v')"
    if "keyObjects (with_entry k p ts v c) p' = Some k'" for p' k'
  proof (cases "p' = p")
    case True
    with that show ?thesis by (simp add: with_entry_def)
  next
    case False
    with that have h': "keyObjects c p' = Some k'"
      by (simp add: with_entry_def)
    from consistent_key_object [OF c h'] obtain ts' v'
      where n': "keysToTimeAndValue c k' = Some (p', ts', v')" by blast
    with absent have "k' \<noteq> k" by auto
    with n' show ?thesis by (simp add: with_entry_def)
  qed
qed

lemma without_absent: "keysToTimeAndValue (without k p ts c) k = None"
  by (simp add: without_def)

text \<open>A consistent cache within its capacity.\<close>

lemma without_capacity:
  "length (timeToKeys c) \<le> unat (maxElements c)
    \<Longrightarrow> length (timeToKeys (without k p ts c)) \<le> unat (maxElements (without k p ts c))"
  by (auto simp add: without_def length_remove1)

lemma without_changes:
  assumes "keysToTimeAndValue c k = Some (p, ts, v)"
  shows "without k p ts c \<noteq> c"
proof
  assume "without k p ts c = c"
  then have "keysToTimeAndValue (without k p ts c) k = keysToTimeAndValue c k"
    by simp
  with assms show False by (simp add: without_def)
qed

lemma filter_single:
  "distinct xs \<Longrightarrow> x \<in> set xs \<Longrightarrow> (\<And>y. y \<in> set xs \<Longrightarrow> P y \<longleftrightarrow> y = x) \<Longrightarrow> filter P xs = [x]"
proof (induction xs)
  case Nil
  then show ?case by simp
next
  case (Cons a xs)
  show ?case
  proof (cases "a = x")
    case True
    with Cons.prems have "\<And>y. y \<in> set xs \<Longrightarrow> \<not> P y" by auto
    then have "filter P xs = []" by (simp add: filter_empty_conv)
    with True Cons.prems(3) [of a] show ?thesis by simp
  next
    case False
    with Cons.prems have "filter P xs = [x]"
      by (intro Cons.IH) auto
    with False Cons.prems(3) [of a] show ?thesis by simp
  qed
qed

lemma points_to_key_iff:
  assumes c: "consistent c" and node: "keysToTimeAndValue c k = Some (p, ts, v)"
    and y: "y \<in> set (timeToKeys c)"
  shows "(case y of (ts', p') \<Rightarrow> keyObjects c p' = Some k) \<longleftrightarrow> y = (ts, p)"
proof -
  obtain ts' p' where e: "y = (ts', p')" by (cases y)
  from consistent_pair [OF c y [unfolded e]] obtain k' v'
    where "keyObjects c p' = Some k'" "keysToTimeAndValue c k' = Some (p', ts', v')"
    by blast
  with node consistent_node [OF c node] e show ?thesis by auto
qed

lemma consistent_entries_for:
  assumes c: "consistent c" and node: "keysToTimeAndValue c k = Some (p, ts, v)"
  shows "entries_for k c = [(ts, p)]"
  unfolding entries_for_def
proof (rule filter_single)
  show "distinct (timeToKeys c)" by (rule consistent_distinct [OF c])
  show "(ts, p) \<in> set (timeToKeys c)" using consistent_node [OF c node] by simp
  show "(case y of (ts', p') \<Rightarrow> keyObjects c p' = Some k) \<longleftrightarrow> y = (ts, p)"
    if "y \<in> set (timeToKeys c)" for y
  proof -
    obtain ts' p' where y: "y = (ts', p')" by (cases y)
    from consistent_pair [OF c that [unfolded y]] obtain k' v'
      where "keyObjects c p' = Some k'" "keysToTimeAndValue c k' = Some (p', ts', v')"
      by blast
    with node consistent_node [OF c node] y show ?thesis by auto
  qed
qed

lemma absent_entries_for:
  assumes c: "consistent c" and absent: "keysToTimeAndValue c k = None"
  shows "entries_for k c = []"
  unfolding entries_for_def filter_empty_conv
proof
  fix y assume y: "y \<in> set (timeToKeys c)"
  obtain ts p where e: "y = (ts, p)" by (cases y)
  from consistent_pair [OF c y [unfolded e]] absent e
  show "\<not> (case y of (ts, p) \<Rightarrow> keyObjects c p = Some k)"
    by auto
qed

lemma without_timeToKeys:
  assumes c: "consistent c" and node: "keysToTimeAndValue c k = Some (p, ts, v)"
  shows "timeToKeys (without k p ts c)
           = filter (\<lambda>(ts', p'). keyObjects c p' \<noteq> Some k) (timeToKeys c)"
proof -
  have "remove1 (ts, p) (timeToKeys c) = filter (\<lambda>y. (ts, p) \<noteq> y) (timeToKeys c)"
    using consistent_distinct [OF c]
    by (simp add: distinct_remove1_removeAll removeAll_filter_not_eq)
  also have "\<dots> = filter (\<lambda>(ts', p'). keyObjects c p' \<noteq> Some k) (timeToKeys c)"
  proof (rule filter_cong [OF refl])
    fix y assume "y \<in> set (timeToKeys c)"
    from points_to_key_iff [OF c node this]
    show "((ts, p) \<noteq> y) = (case y of (ts', p') \<Rightarrow> keyObjects c p' \<noteq> Some k)"
      by (cases y) auto
  qed
  finally show ?thesis by (simp add: without_def)
qed

lemma absent_timeToKeys:
  assumes c: "consistent c" and absent: "keysToTimeAndValue c k = None"
  shows "filter (\<lambda>(ts', p'). keyObjects c p' \<noteq> Some k) (timeToKeys c) = timeToKeys c"
  unfolding filter_id_conv
proof
  fix y assume y: "y \<in> set (timeToKeys c)"
  obtain ts p where e: "y = (ts, p)" by (cases y)
  from consistent_pair [OF c y [unfolded e]] absent e
  show "case y of (ts', p') \<Rightarrow> keyObjects c p' \<noteq> Some k"
    by auto
qed

lemma card_keys:
  assumes c: "consistent c"
  shows "card (dom (keysToTimeAndValue c)) = length (timeToKeys c)"
proof -
  let ?f = "\<lambda>(ts, p). the (keyObjects c p)"
  have "dom (keysToTimeAndValue c) = ?f ` set (timeToKeys c)"
  proof (intro set_eqI iffI)
    fix k assume "k \<in> dom (keysToTimeAndValue c)"
    then obtain p ts v where node: "keysToTimeAndValue c k = Some (p, ts, v)"
      by (cases "the (keysToTimeAndValue c k)") auto
    from consistent_node [OF c node] have "(ts, p) \<in> set (timeToKeys c)" "?f (ts, p) = k"
      by simp_all
    then show "k \<in> ?f ` set (timeToKeys c)" by force
  next
    fix k assume "k \<in> ?f ` set (timeToKeys c)"
    then obtain ts p where y: "(ts, p) \<in> set (timeToKeys c)" and k: "k = the (keyObjects c p)"
      by auto
    from consistent_pair [OF c y] k show "k \<in> dom (keysToTimeAndValue c)"
      by auto
  qed
  moreover have "inj_on ?f (set (timeToKeys c))"
  proof (rule inj_onI)
    fix x y assume x: "x \<in> set (timeToKeys c)" and y: "y \<in> set (timeToKeys c)"
      and eq: "?f x = ?f y"
    obtain ts p where ex: "x = (ts, p)" by (cases x)
    obtain ts' p' where ey: "y = (ts', p')" by (cases y)
    from consistent_pair [OF c x [unfolded ex]] consistent_pair [OF c y [unfolded ey]] eq ex ey
    show "x = y" by auto
  qed
  ultimately show ?thesis
    using consistent_distinct [OF c] by (simp add: card_image distinct_card)
qed

section \<open>One pass of the cleanup loop\<close>

lemma cleanup_body_empty: "timeToKeys c = [] \<Longrightarrow> cleanup_body currentTs c = Break c"
  by (simp add: cleanup_body_def)

lemma cleanup_body_keep:
  "timeToKeys c = (ts, p) # rest \<Longrightarrow> \<not> ts + maxTime c < currentTs
    \<Longrightarrow> \<not> unat (maxElements c) < length (timeToKeys c) \<Longrightarrow> cleanup_body currentTs c = Break c"
  by (simp add: cleanup_body_def)

lemma cleanup_body_evict:
  assumes c: "consistent c" and oldest: "timeToKeys c = (ts, p) # rest"
    and due: "ts + maxTime c < currentTs \<or> unat (maxElements c) < length (timeToKeys c)"
  shows "\<exists>k v. keysToTimeAndValue c k = Some (p, ts, v) \<and> keyObjects c p = Some k
           \<and> cleanup_body currentTs c = Continue (without k p ts c)"
proof -
  from oldest have "(ts, p) \<in> set (timeToKeys c)" by simp
  from consistent_pair [OF c this] obtain k v
    where h: "keyObjects c p = Some k" and n: "keysToTimeAndValue c k = Some (p, ts, v)"
    by blast
  from due oldest h n have "cleanup_body currentTs c = Continue (without k p ts c)"
    by (auto simp: cleanup_body_def without_def)
  with h n show ?thesis by blast
qed

lemma cleanup_body_cases:
  assumes c: "consistent c"
  shows "cleanup_body currentTs c = Break c \<or>
         (\<exists>c'. cleanup_body currentTs c = Continue c' \<and> consistent c'
            \<and> Suc (length (timeToKeys c')) = length (timeToKeys c)
            \<and> maxTime c' = maxTime c \<and> maxElements c' = maxElements c)"
proof (cases "timeToKeys c")
  case Nil
  then show ?thesis by (simp add: cleanup_body_empty)
next
  case (Cons e rest)
  obtain ts p where e: "e = (ts, p)" by (cases e)
  show ?thesis
  proof (cases "ts + maxTime c < currentTs \<or> unat (maxElements c) < length (timeToKeys c)")
    case True
    from cleanup_body_evict [OF c Cons [unfolded e] True] obtain k v
      where n: "keysToTimeAndValue c k = Some (p, ts, v)"
        and b: "cleanup_body currentTs c = Continue (without k p ts c)"
      by blast
    have "Suc (length (timeToKeys (without k p ts c))) = length (timeToKeys c)"
      using Cons e by (simp add: without_def)
    moreover have "maxTime (without k p ts c) = maxTime c"
      and "maxElements (without k p ts c) = maxElements c"
      by (simp_all add: without_def)
    ultimately show ?thesis
      using b consistent_without [OF c n] by simp
  next
    case False
    with Cons e show ?thesis by (simp add: cleanup_body_keep)
  qed
qed

lemma cleanup_n_consistent:
  "consistent c \<Longrightarrow>
     \<exists>c'. cleanup_n currentTs n c = Some c' \<and> consistent c'
        \<and> length (timeToKeys c') \<le> length (timeToKeys c)
        \<and> length (timeToKeys c) \<le> length (timeToKeys c') + n
        \<and> maxTime c' = maxTime c \<and> maxElements c' = maxElements c"
proof (induction n arbitrary: c)
  case 0
  then show ?case by simp
next
  case (Suc n)
  from cleanup_body_cases [OF Suc.prems, of currentTs] show ?case
  proof
    assume "cleanup_body currentTs c = Break c"
    with Suc.prems show ?thesis by simp
  next
    assume "\<exists>c'. cleanup_body currentTs c = Continue c' \<and> consistent c'
            \<and> Suc (length (timeToKeys c')) = length (timeToKeys c)
            \<and> maxTime c' = maxTime c \<and> maxElements c' = maxElements c"
    then obtain c1 where b: "cleanup_body currentTs c = Continue c1" and c1: "consistent c1"
      and l: "Suc (length (timeToKeys c1)) = length (timeToKeys c)"
      and m: "maxTime c1 = maxTime c" "maxElements c1 = maxElements c"
      by blast
    from Suc.IH [OF c1] obtain c' where "cleanup_n currentTs n c1 = Some c'" "consistent c'"
      "length (timeToKeys c') \<le> length (timeToKeys c1)"
      "length (timeToKeys c1) \<le> length (timeToKeys c') + n"
      "maxTime c' = maxTime c1" "maxElements c' = maxElements c1"
      by blast
    with b l m show ?thesis by simp
  qed
qed

lemma cleanup_n_capacity:
  assumes c: "consistent c" and le: "length (timeToKeys c) \<le> Suc (unat (maxElements c))"
    and run: "cleanup_n currentTs (Suc n) c = Some c'"
  shows "length (timeToKeys c') \<le> unat (maxElements c')"
proof (cases "unat (maxElements c) < length (timeToKeys c)")
  case True
  then obtain e rest where oldest: "timeToKeys c = e # rest"
    by (cases "timeToKeys c") auto
  obtain ts p where e: "e = (ts, p)" by (cases e)
  from cleanup_body_evict [OF c oldest [unfolded e], of currentTs] True obtain k v
    where n: "keysToTimeAndValue c k = Some (p, ts, v)"
      and b: "cleanup_body currentTs c = Continue (without k p ts c)"
    by blast
  let ?c1 = "without k p ts c"
  from b run have run1: "cleanup_n currentTs n ?c1 = Some c'" by simp
  have l1: "length (timeToKeys ?c1) \<le> unat (maxElements c)"
    using le oldest e by (simp add: without_def)
  from cleanup_n_consistent [OF consistent_without [OF c n], of currentTs n] run1
  have "length (timeToKeys c') \<le> length (timeToKeys ?c1)" "maxElements c' = maxElements ?c1"
    by auto
  with l1 show ?thesis by (simp add: without_def)
next
  case False
  from cleanup_n_consistent [OF c, of currentTs "Suc n"] run
  have "length (timeToKeys c') \<le> length (timeToKeys c)" "maxElements c' = maxElements c"
    by auto
  with False show ?thesis by simp
qed

lemma Min_sorted: "sorted (x # xs) \<Longrightarrow> Min (set (x # xs)) = x"
  by (rule Min_eqI) auto

lemma cleanup_n_evict_oldest:
  "consistent c \<Longrightarrow> cleanup_n currentTs n c = Some (evict_oldest currentTs n c)"
proof (induction n arbitrary: c)
  case 0
  show ?case by simp
next
  case (Suc n)
  note c = Suc.prems
  show ?case
  proof (cases "timeToKeys c")
    case Nil
    then show ?thesis by (simp add: cleanup_body_empty)
  next
    case (Cons e rest)
    obtain ts p where e: "e = (ts, p)" by (cases e)
    from consistent_sorted [OF c] Cons e have least: "Min (set (timeToKeys c)) = (ts, p)"
      using Min_sorted [of "(ts, p)" rest] by simp
    show ?thesis
    proof (cases "ts + maxTime c < currentTs \<or> unat (maxElements c) < length (timeToKeys c)")
      case True
      from cleanup_body_evict [OF c Cons [unfolded e] True] obtain k v
        where node: "keysToTimeAndValue c k = Some (p, ts, v)"
          and key: "keyObjects c p = Some k"
          and body: "cleanup_body currentTs c = Continue (without k p ts c)"
        by blast
      from Suc.IH [OF consistent_without [OF c node]] body key least True Cons
      show ?thesis by simp
    next
      case False
      with cleanup_body_keep [OF Cons [unfolded e], of currentTs] least Cons
      show ?thesis by simp
    qed
  qed
qed

section \<open>erase and get on a consistent cache\<close>

lemma erase_consistent:
  assumes c: "consistent c"
  shows "erase k c = Some (case keysToTimeAndValue c k of
                             None \<Rightarrow> c | Some (p, ts, v) \<Rightarrow> without k p ts c)"
proof (cases "keysToTimeAndValue c k")
  case None
  then show ?thesis by (simp add: erase_def)
next
  case (Some node)
  obtain p ts v where node: "node = (p, ts, v)" by (cases node)
  from consistent_node [OF c Some [unfolded node]] Some node show ?thesis
    by (simp add: erase_def set_erase_def without_def)
qed

lemma erase_absent_again: "keysToTimeAndValue c k = None \<Longrightarrow> erase k c = Some c"
  by (simp add: erase_def)

lemma get_fill_present:
  "keysToTimeAndValue c k = Some node \<Longrightarrow> get_fill env currentTs k val c = Return val c"
  by (simp add: get_fill_def)

lemma get_fill_consistent:
  assumes c: "consistent c" and ok: "allocator_ok env" and absent: "keysToTimeAndValue c k = None"
  shows "get_fill env currentTs k val c =
     (case allocNode env (keyObjects c) of
        None \<Rightarrow> Throw ResourceExhaustion c
      | Some p \<Rightarrow>
          if allocTime env
          then Return (movedFrom env val)
                 (the (cleanup_n currentTs (Suc (Suc (Suc 0))) (with_entry k p currentTs val c)))
          else Throw ResourceExhaustion c)"
proof (cases "allocNode env (keyObjects c)")
  case None
  with absent show ?thesis by (simp add: get_fill_def)
next
  case (Some p)
  with ok have free: "keyObjects c p = None"
    by (auto simp: allocator_ok_def)
  with consistent_pair [OF c, of currentTs p] have notin: "(currentTs, p) \<notin> set (timeToKeys c)"
    by auto
  have undo: "(keysToTimeAndValue c)(k := None) = keysToTimeAndValue c"
    "(keyObjects c)(p := None) = keyObjects c"
    using absent free by auto
  let ?c1 = "with_entry k p currentTs val c"
  from cleanup_n_consistent [OF consistent_with_entry [OF c absent free]]
  obtain c2 where "cleanup_n currentTs (Suc (Suc (Suc 0))) ?c1 = Some c2"
    by blast
  moreover have "c\<lparr>keysToTimeAndValue := (keysToTimeAndValue c)(k \<mapsto> (p, currentTs, val)),
          keyObjects := (keyObjects c)(p \<mapsto> k),
          timeToKeys := insort (currentTs, p) (timeToKeys c)\<rparr> = ?c1"
    by (simp add: with_entry_def)
  ultimately show ?thesis
    using Some absent notin undo
    by (simp add: get_fill_def Let_def set_insert_def cleanupWithoutLocking_few
        del: cleanup_n.simps)
qed

lemma get_absent:
  "keysToTimeAndValue c k = None \<Longrightarrow> get env currentTs k c = get_obtain env currentTs k c"
  by (simp add: get_def)

lemma get_fresh:
  "keysToTimeAndValue c k = Some (p, ts, v) \<Longrightarrow> currentTs \<le> ts + maxTime c
    \<Longrightarrow> get env currentTs k c = (Return v c, [])"
  by (simp add: get_def)

lemma get_stale:
  assumes c: "consistent c" and node: "keysToTimeAndValue c k = Some (p, ts, v)"
    and stale: "ts + maxTime c < currentTs"
  shows "get env currentTs k c = get_obtain env currentTs k (without k p ts c)"
  using consistent_node [OF c node] node stale
  by (simp add: get_def set_erase_def without_def)

lemma get_obtain_calls: "snd (get_obtain env currentTs k c) = [k]"
  by (simp add: get_obtain_def split: sum.splits)

lemma get_fill_inserts:
  assumes c: "consistent c" and absent: "keysToTimeAndValue c k = None"
    and node: "allocNode env (keyObjects c) = Some p" and free: "keyObjects c p = None"
    and time: "allocTime env"
    and pass: "cleanup_n currentTs (Suc (Suc (Suc 0))) (with_entry k p currentTs val c) = Some c'"
  shows "get_fill env currentTs k val c = Return (movedFrom env val) c'"
proof -
  from consistent_pair [OF c, of currentTs p] free
  have notin: "(currentTs, p) \<notin> set (timeToKeys c)"
    by auto
  have "c\<lparr>keysToTimeAndValue := (keysToTimeAndValue c)(k \<mapsto> (p, currentTs, val)),
          keyObjects := (keyObjects c)(p \<mapsto> k),
          timeToKeys := insort (currentTs, p) (timeToKeys c)\<rparr> = with_entry k p currentTs val c"
    by (simp add: with_entry_def)
  with absent node time notin pass show ?thesis
    by (simp add: get_fill_def Let_def set_insert_def cleanupWithoutLocking_few
        del: cleanup_n.simps)
qed

lemma get_miss_inserts:
  assumes "consistent c" and "keysToTimeAndValue c k = None"
    and "valueObtainer env k = Inr val"
    and "allocNode env (keyObjects c) = Some p" and "keyObjects c p = None" and "allocTime env"
    and "cleanup_n currentTs (Suc (Suc (Suc 0))) (with_entry k p currentTs val c) = Some c'"
  shows "get env currentTs k c = (Return (movedFrom env val) c', [k])"
  using get_fill_inserts [OF assms(1,2,4,5,6,7)] assms(2,3)
  by (simp add: get_absent get_obtain_def)

section \<open>The caches one thread reaches are consistent and within capacity\<close>

lemma get_obtain_step:
  assumes c: "consistent c" and cap: "length (timeToKeys c) \<le> unat (maxElements c)"
    and ok: "allocator_ok env" and absent: "keysToTimeAndValue c k = None"
    and run: "get_obtain env currentTs k c = (r, calls)"
    and r: "r = Return v c' \<or> r = Throw e c'"
  shows "consistent c' \<and> length (timeToKeys c') \<le> unat (maxElements c')"
proof (cases "valueObtainer env k")
  case (Inl e')
  with run r c cap show ?thesis by (auto simp: get_obtain_def)
next
  case (Inr val)
  with run have fill: "get_fill env currentTs k val c = r"
    by (simp add: get_obtain_def)
  show ?thesis
  proof (cases "allocNode env (keyObjects c)")
    case None
    with fill r c cap show ?thesis
      by (auto simp: get_fill_consistent [OF c ok absent])
  next
    case (Some p)
    with ok have free: "keyObjects c p = None"
      by (auto simp: allocator_ok_def)
    let ?c1 = "with_entry k p currentTs val c"
    have c1: "consistent ?c1"
      by (rule consistent_with_entry [OF c absent free])
    have cap1: "length (timeToKeys ?c1) \<le> Suc (unat (maxElements ?c1))"
      using cap by (simp add: with_entry_def)
    from cleanup_n_consistent [OF c1, of currentTs "Suc (Suc (Suc 0))"] obtain c2
      where run2: "cleanup_n currentTs (Suc (Suc (Suc 0))) ?c1 = Some c2" and c2: "consistent c2"
      by blast
    note cap2 = cleanup_n_capacity [OF c1 cap1 run2]
    show ?thesis
    proof (cases "allocTime env")
      case True
      with fill Some run2 have "r = Return (movedFrom env val) c2"
        by (simp add: get_fill_consistent [OF c ok absent] del: cleanup_n.simps)
      with r c2 cap2 show ?thesis by auto
    next
      case False
      with fill Some have "r = Throw ResourceExhaustion c"
        by (simp add: get_fill_consistent [OF c ok absent] del: cleanup_n.simps)
      with r c cap show ?thesis by auto
    qed
  qed
qed

lemma get_step:
  assumes c: "consistent c" and cap: "length (timeToKeys c) \<le> unat (maxElements c)"
    and ok: "allocator_ok env"
    and run: "get env currentTs k c = (r, calls)"
    and r: "r = Return v c' \<or> r = Throw e c'"
  shows "consistent c' \<and> length (timeToKeys c') \<le> unat (maxElements c')"
proof (cases "keysToTimeAndValue c k")
  case None
  with run have "get_obtain env currentTs k c = (r, calls)"
    by (simp add: get_absent)
  from get_obtain_step [OF c cap ok None this r] show ?thesis .
next
  case (Some node)
  obtain p ts w where node: "keysToTimeAndValue c k = Some (p, ts, w)"
    using Some by (cases node) auto
  show ?thesis
  proof (cases "currentTs \<le> ts + maxTime c")
    case True
    from run r c cap show ?thesis
      by (auto simp: get_fresh [OF node True])
  next
    case False
    then have "ts + maxTime c < currentTs" by simp
    from run have "get_obtain env currentTs k (without k p ts c) = (r, calls)"
      by (simp add: get_stale [OF c node \<open>ts + maxTime c < currentTs\<close>])
    from get_obtain_step [OF consistent_without [OF c node] without_capacity [OF cap] ok
        without_absent this r]
    show ?thesis .
  qed
qed

lemma cleanup_step:
  assumes c: "consistent c" and cap: "length (timeToKeys c) \<le> unat (maxElements c)"
    and run: "cleanup currentTs maxOperations c = Some c'"
  shows "consistent c' \<and> length (timeToKeys c') \<le> unat (maxElements c')"
  using cleanup_n_consistent [OF c, of currentTs "unat maxOperations"] run cap
  by (auto simp: cleanup_def cleanupWithoutLocking_n)

lemma erase_step:
  assumes c: "consistent c" and cap: "length (timeToKeys c) \<le> unat (maxElements c)"
    and run: "erase k c = Some c'"
  shows "consistent c' \<and> length (timeToKeys c') \<le> unat (maxElements c')"
proof (cases "keysToTimeAndValue c k")
  case None
  with run c cap show ?thesis by (simp add: erase_consistent [OF c])
next
  case (Some node)
  obtain p ts w where node: "keysToTimeAndValue c k = Some (p, ts, w)"
    using Some by (cases node) auto
  with run have "c' = without k p ts c"
    by (simp add: erase_consistent [OF c])
  with consistent_without [OF c node] without_capacity [OF cap] show ?thesis by simp
qed

lemma constructed_consistent: "consistent (LruCacheBase maxTime' maxElements')"
  by (simp add: consistent_def LruCacheBase_def)

lemma reachable_consistent_capacity:
  "reachable c \<Longrightarrow> consistent c \<and> length (timeToKeys c) \<le> unat (maxElements c)"
proof (induction rule: reachable.induct)
  case (constructed maxTime' maxElements')
  show ?case
    using constructed_consistent [of maxTime' maxElements'] by (simp add: LruCacheBase_def)
next
  case (after_get c env currentTs keyTuple v c' calls)
  then have "consistent c" and "length (timeToKeys c) \<le> unat (maxElements c)"
    by simp_all
  from get_step [OF this \<open>allocator_ok env\<close> after_get.hyps(3)] show ?case
    by simp
next
  case (after_failed_get c env currentTs keyTuple e c' calls)
  then have "consistent c" and "length (timeToKeys c) \<le> unat (maxElements c)"
    by simp_all
  from get_step [OF this \<open>allocator_ok env\<close> after_failed_get.hyps(3)] show ?case
    by simp
next
  case (after_cleanup c currentTs maxOperations c')
  then have "consistent c" and "length (timeToKeys c) \<le> unat (maxElements c)"
    by simp_all
  from cleanup_step [OF this after_cleanup.hyps(2)] show ?case .
next
  case (after_erase c keyTuple c')
  then have "consistent c" and "length (timeToKeys c) \<le> unat (maxElements c)"
    by simp_all
  from erase_step [OF this after_erase.hyps(2)] show ?case .
qed

text \<open>No assertion fails on a consistent cache.\<close>

lemma get_obtain_completes:
  assumes c: "consistent c" and ok: "allocator_ok env" and absent: "keysToTimeAndValue c k = None"
  shows "fst (get_obtain env currentTs k c) \<noteq> Abort"
  by (simp add: get_obtain_def get_fill_consistent [OF c ok absent] del: cleanup_n.simps
      split: sum.splits option.splits)

lemma get_completes:
  assumes c: "consistent c" and ok: "allocator_ok env"
  shows "fst (get env currentTs k c) \<noteq> Abort"
proof (cases "keysToTimeAndValue c k")
  case None
  with get_obtain_completes [OF c ok None] show ?thesis
    by (simp add: get_absent)
next
  case (Some node)
  obtain p ts w where node: "keysToTimeAndValue c k = Some (p, ts, w)"
    using Some by (cases node) auto
  show ?thesis
  proof (cases "currentTs \<le> ts + maxTime c")
    case True
    then show ?thesis by (simp add: get_fresh [OF node])
  next
    case False
    then have stale: "ts + maxTime c < currentTs" by simp
    from get_obtain_completes [OF consistent_without [OF c node] ok without_absent]
    show ?thesis by (simp add: get_stale [OF c node stale])
  qed
qed

lemma cleanup_completes: "consistent c \<Longrightarrow> cleanup currentTs maxOperations c \<noteq> None"
  using cleanup_n_consistent [of c currentTs "unat maxOperations"]
  by (auto simp: cleanup_def cleanupWithoutLocking_n)

lemma erase_completes: "consistent c \<Longrightarrow> erase k c \<noteq> None"
  by (simp add: erase_consistent)

section \<open>What the operations do to the entry of one key\<close>

lemma without_keeps:
  "keysToTimeAndValue (without k' p ts c) k = keysToTimeAndValue c k
    \<or> keysToTimeAndValue (without k' p ts c) k = None"
  by (simp add: without_def)

lemma evict_oldest_keeps:
  "keysToTimeAndValue (evict_oldest currentTs n c) k = keysToTimeAndValue c k
    \<or> keysToTimeAndValue (evict_oldest currentTs n c) k = None"
proof (induction n arbitrary: c)
  case 0
  show ?case by simp
next
  case (Suc n)
  show ?case
  proof (cases "timeToKeys c = []")
    case True
    then show ?thesis by simp
  next
    case False
    obtain ts p where least: "Min (set (timeToKeys c)) = (ts, p)"
      by (cases "Min (set (timeToKeys c))")
    show ?thesis
    proof (cases "ts + maxTime c < currentTs \<or> unat (maxElements c) < length (timeToKeys c)")
      case True
      let ?c1 = "without (the (keyObjects c p)) p ts c"
      from True False least
      have step: "evict_oldest currentTs (Suc n) c = evict_oldest currentTs n ?c1"
        by simp
      from Suc.IH [of ?c1] without_keeps [of "the (keyObjects c p)" p ts c k]
      show ?thesis unfolding step by auto
    next
      case no: False
      with False least show ?thesis by simp
    qed
  qed
qed

lemma cleanup_n_keeps:
  assumes "consistent c" and "cleanup_n currentTs n c = Some c'"
  shows "keysToTimeAndValue c' k = keysToTimeAndValue c k \<or> keysToTimeAndValue c' k = None"
  using assms evict_oldest_keeps [of currentTs n c k]
  by (simp add: cleanup_n_evict_oldest)

lemma get_obtain_keeps:
  assumes c: "consistent c" and ok: "allocator_ok env"
    and absent: "keysToTimeAndValue c keyTuple = None"
    and run: "get_obtain env currentTs keyTuple c = (res, calls)"
    and res: "res = Return r c' \<or> res = Throw e c'"
    and other: "k \<noteq> keyTuple"
  shows "keysToTimeAndValue c' k = keysToTimeAndValue c k \<or> keysToTimeAndValue c' k = None"
proof (cases "valueObtainer env keyTuple")
  case (Inl e')
  with run res show ?thesis by (auto simp: get_obtain_def)
next
  case (Inr val)
  with run have fill: "get_fill env currentTs keyTuple val c = res"
    by (simp add: get_obtain_def)
  show ?thesis
  proof (cases "allocNode env (keyObjects c)")
    case None
    with fill res show ?thesis
      by (auto simp: get_fill_consistent [OF c ok absent])
  next
    case (Some p)
    with ok have free: "keyObjects c p = None"
      by (auto simp: allocator_ok_def)
    let ?c1 = "with_entry keyTuple p currentTs val c"
    have c1: "consistent ?c1"
      by (rule consistent_with_entry [OF c absent free])
    have same: "keysToTimeAndValue ?c1 k = keysToTimeAndValue c k"
      using other by (simp add: with_entry_def)
    from cleanup_n_consistent [OF c1, of currentTs "Suc (Suc (Suc 0))"] obtain c2
      where run2: "cleanup_n currentTs (Suc (Suc (Suc 0))) ?c1 = Some c2"
      by blast
    note keeps = cleanup_n_keeps [OF c1 run2, of k]
    show ?thesis
    proof (cases "allocTime env")
      case True
      with fill Some run2 have "res = Return (movedFrom env val) c2"
        by (simp add: get_fill_consistent [OF c ok absent] del: cleanup_n.simps)
      with res keeps same show ?thesis by auto
    next
      case False
      with fill Some have "res = Throw ResourceExhaustion c"
        by (simp add: get_fill_consistent [OF c ok absent] del: cleanup_n.simps)
      with res show ?thesis by auto
    qed
  qed
qed

lemma get_keeps:
  assumes c: "consistent c" and ok: "allocator_ok env"
    and run: "get env currentTs keyTuple c = (res, calls)"
    and res: "res = Return r c' \<or> res = Throw e c'"
    and quiet: "k \<notin> set calls"
  shows "keysToTimeAndValue c' k = keysToTimeAndValue c k \<or> keysToTimeAndValue c' k = None"
proof (cases "keysToTimeAndValue c keyTuple")
  case None
  with run have run': "get_obtain env currentTs keyTuple c = (res, calls)"
    by (simp add: get_absent)
  then have "calls = [keyTuple]"
    using get_obtain_calls [of env currentTs keyTuple c] by simp
  with quiet have "k \<noteq> keyTuple" by auto
  from get_obtain_keeps [OF c ok None run' res this] show ?thesis .
next
  case (Some node)
  obtain p ts w where node: "keysToTimeAndValue c keyTuple = Some (p, ts, w)"
    using Some by (cases node) auto
  show ?thesis
  proof (cases "currentTs \<le> ts + maxTime c")
    case True
    from run res show ?thesis
      by (auto simp: get_fresh [OF node True])
  next
    case False
    then have stale: "ts + maxTime c < currentTs" by simp
    let ?c0 = "without keyTuple p ts c"
    from run have run': "get_obtain env currentTs keyTuple ?c0 = (res, calls)"
      by (simp add: get_stale [OF c node stale])
    then have "calls = [keyTuple]"
      using get_obtain_calls [of env currentTs keyTuple ?c0] by simp
    with quiet have "k \<noteq> keyTuple" by auto
    from get_obtain_keeps [OF consistent_without [OF c node] ok without_absent run' res this]
      without_keeps [of keyTuple p ts c k]
    show ?thesis by auto
  qed
qed

lemma get_inserted_node:
  assumes c: "consistent c" and ok: "allocator_ok env"
    and obtained: "valueObtainer env k = Inr v"
    and run: "get env T k c = (Return r c', [k])"
    and kept: "keysToTimeAndValue c' k \<noteq> None"
  shows "\<exists>p. keysToTimeAndValue c' k = Some (p, T, v)"
proof -
  have fill: "\<exists>p. keysToTimeAndValue c' k = Some (p, T, v)"
    if c0: "consistent c0" and absent: "keysToTimeAndValue c0 k = None"
      and run0: "get_obtain env T k c0 = (Return r c', [k])" for c0
  proof -
    from run0 obtained have fill: "get_fill env T k v c0 = Return r c'"
      by (simp add: get_obtain_def)
    show ?thesis
    proof (cases "allocNode env (keyObjects c0)")
      case None
      with fill show ?thesis
        by (simp add: get_fill_consistent [OF c0 ok absent])
    next
      case (Some p)
      with ok have free: "keyObjects c0 p = None"
        by (auto simp: allocator_ok_def)
      let ?c1 = "with_entry k p T v c0"
      have c1: "consistent ?c1"
        by (rule consistent_with_entry [OF c0 absent free])
      from cleanup_n_consistent [OF c1, of T "Suc (Suc (Suc 0))"] obtain c2
        where run2: "cleanup_n T (Suc (Suc (Suc 0))) ?c1 = Some c2"
        by blast
      from fill Some run2 have "allocTime env" and "c' = c2"
        by (auto simp: get_fill_consistent [OF c0 ok absent] simp del: cleanup_n.simps
            split: if_splits)
      with cleanup_n_keeps [OF c1 run2, of k] kept show ?thesis
        by (auto simp: with_entry_def)
    qed
  qed
  show ?thesis
  proof (cases "keysToTimeAndValue c k")
    case None
    with run fill [OF c None] show ?thesis
      by (simp add: get_absent)
  next
    case (Some node)
    obtain p ts w where node: "keysToTimeAndValue c k = Some (p, ts, w)"
      using Some by (cases node) auto
    show ?thesis
    proof (cases "T \<le> ts + maxTime c")
      case True
      with run show ?thesis
        by (simp add: get_fresh [OF node True])
    next
      case False
      then have stale: "ts + maxTime c < T" by simp
      from run fill [OF consistent_without [OF c node] without_absent] show ?thesis
        by (simp add: get_stale [OF c node stale])
    qed
  qed
qed

lemma cached_since_node:
  "cached_since k T v c \<Longrightarrow> reachable c \<and> (\<exists>p. keysToTimeAndValue c k = Some (p, T, v))"
proof (induction rule: cached_since.induct)
  case (inserted c env k v T r c')
  from reachable_consistent_capacity [OF inserted(1)] have c: "consistent c" ..
  from get_inserted_node [OF c inserted(2,3,4,5)] after_get [OF inserted(1,2,4)]
  show ?case by simp
next
  case (kept_by_get k T v c env currentTs keyTuple r c' calls)
  then have r: "reachable c" and node: "\<exists>p. keysToTimeAndValue c k = Some (p, T, v)"
    by simp_all
  from reachable_consistent_capacity [OF r] have c: "consistent c" ..
  from get_keeps [OF c kept_by_get(2,3) _ kept_by_get(4), of r c'] kept_by_get(5) node
    after_get [OF r kept_by_get(2,3)]
  show ?case by auto
next
  case (kept_by_failed_get k T v c env currentTs keyTuple e c' calls)
  then have r: "reachable c" and node: "\<exists>p. keysToTimeAndValue c k = Some (p, T, v)"
    by simp_all
  from reachable_consistent_capacity [OF r] have c: "consistent c" ..
  from get_keeps [OF c kept_by_failed_get(2,3) _ kept_by_failed_get(4), of _ c' e]
    kept_by_failed_get(5) node after_failed_get [OF r kept_by_failed_get(2,3)]
  show ?case by auto
next
  case (kept_by_cleanup k T v c currentTs maxOperations c')
  then have r: "reachable c" and node: "\<exists>p. keysToTimeAndValue c k = Some (p, T, v)"
    by simp_all
  from reachable_consistent_capacity [OF r] have c: "consistent c" ..
  from kept_by_cleanup(2) have "cleanup_n currentTs (unat maxOperations) c = Some c'"
    by (simp add: cleanup_def cleanupWithoutLocking_n)
  from cleanup_n_keeps [OF c this, of k] kept_by_cleanup(3) node
    after_cleanup [OF r kept_by_cleanup(2)]
  show ?case by auto
next
  case (kept_by_erase k T v c keyTuple c')
  then have r: "reachable c" and node: "\<exists>p. keysToTimeAndValue c k = Some (p, T, v)"
    by simp_all
  from reachable_consistent_capacity [OF r] have c: "consistent c" ..
  have "keysToTimeAndValue c' k = keysToTimeAndValue c k \<or> keysToTimeAndValue c' k = None"
  proof (cases "keysToTimeAndValue c keyTuple")
    case None
    with kept_by_erase(2) show ?thesis
      by (simp add: erase_consistent [OF c])
  next
    case (Some entry)
    obtain p ts w where "entry = (p, ts, w)" by (cases entry)
    with Some kept_by_erase(2) have "c' = without keyTuple p ts c"
      by (simp add: erase_consistent [OF c])
    with without_keeps [of keyTuple p ts c k] show ?thesis by simp
  qed
  with kept_by_erase(3) node after_erase [OF r kept_by_erase(2)]
  show ?case by auto
qed

text \<open>
  Conversely, every entry of a cache one thread reaches was inserted by a \<open>get\<close> at the time
  of its stamp and has been cached since.
\<close>

lemma get_obtain_returned:
  "get_obtain env currentTs k c = (Return r c', calls) \<Longrightarrow> \<exists>v. valueObtainer env k = Inr v"
  by (cases "valueObtainer env k") (auto simp: get_obtain_def)

lemma get_returned_after_obtaining:
  assumes c: "consistent c" and run: "get env currentTs k c = (Return r c', calls)"
    and called: "calls \<noteq> []"
  shows "calls = [k] \<and> (\<exists>v. valueObtainer env k = Inr v)"
proof (cases "keysToTimeAndValue c k")
  case None
  with run have "get_obtain env currentTs k c = (Return r c', calls)"
    by (simp add: get_absent)
  with get_obtain_returned [OF this] get_obtain_calls [of env currentTs k c] show ?thesis
    by simp
next
  case (Some node)
  obtain p ts w where node: "keysToTimeAndValue c k = Some (p, ts, w)"
    using Some by (cases node) auto
  show ?thesis
  proof (cases "currentTs \<le> ts + maxTime c")
    case True
    with run called show ?thesis
      by (simp add: get_fresh [OF node True])
  next
    case False
    then have stale: "ts + maxTime c < currentTs" by simp
    from run have "get_obtain env currentTs k (without k p ts c) = (Return r c', calls)"
      by (simp add: get_stale [OF c node stale])
    with get_obtain_returned [OF this] get_obtain_calls [of env currentTs k "without k p ts c"]
    show ?thesis by simp
  qed
qed

lemma get_thrown_after_obtaining:
  assumes c: "consistent c" and ok: "allocator_ok env"
    and run: "get env currentTs k c = (Throw e c', calls)" and called: "calls \<noteq> []"
  shows "keysToTimeAndValue c' k = None"
proof -
  have thrown: "keysToTimeAndValue c' k = None"
    if c0: "consistent c0" and absent: "keysToTimeAndValue c0 k = None"
      and run0: "get_obtain env currentTs k c0 = (Throw e c', calls)" for c0
  proof (cases "valueObtainer env k")
    case (Inl e')
    with run0 absent show ?thesis by (auto simp: get_obtain_def)
  next
    case (Inr val)
    with run0 have "get_fill env currentTs k val c0 = Throw e c'"
      by (simp add: get_obtain_def)
    with absent show ?thesis
      by (auto simp: get_fill_consistent [OF c0 ok absent] simp del: cleanup_n.simps
          split: option.splits if_splits)
  qed
  show ?thesis
  proof (cases "keysToTimeAndValue c k")
    case None
    with run thrown [OF c None] show ?thesis
      by (simp add: get_absent)
  next
    case (Some node)
    obtain p ts w where node: "keysToTimeAndValue c k = Some (p, ts, w)"
      using Some by (cases node) auto
    show ?thesis
    proof (cases "currentTs \<le> ts + maxTime c")
      case True
      with run called show ?thesis
        by (simp add: get_fresh [OF node True])
    next
      case False
      then have stale: "ts + maxTime c < currentTs" by simp
      from run thrown [OF consistent_without [OF c node] without_absent] show ?thesis
        by (simp add: get_stale [OF c node stale])
    qed
  qed
qed

lemma get_calls_key:
  "get env currentTs keyTuple c = (res, calls) \<Longrightarrow> calls = [] \<or> calls = [keyTuple]"
proof -
  assume run: "get env currentTs keyTuple c = (res, calls)"
  have "snd (get env currentTs keyTuple c) = [] \<or> snd (get env currentTs keyTuple c) = [keyTuple]"
    by (simp add: get_def set_erase_def get_obtain_calls split: option.splits prod.splits)
  with run show ?thesis by simp
qed

lemma reachable_cached_since:
  "reachable c \<Longrightarrow> keysToTimeAndValue c k = Some (p, T, v) \<Longrightarrow> cached_since k T v c"
proof (induction arbitrary: k p T v rule: reachable.induct)
  case (constructed maxTime' maxElements')
  then show ?case by (simp add: LruCacheBase_def)
next
  case (after_get c env currentTs keyTuple r c' calls)
  from reachable_consistent_capacity [OF after_get(1)] have c: "consistent c" ..
  have held: "keysToTimeAndValue c' k \<noteq> None"
    using after_get.prems by simp
  show ?case
  proof (cases "k \<in> set calls")
    case True
    with get_calls_key [OF after_get(3)] have key: "keyTuple = k" and calls: "calls = [k]"
      by auto
    from get_returned_after_obtaining [OF c after_get(3)] calls obtain v0
      where obtained: "valueObtainer env keyTuple = Inr v0" by auto
    note run = after_get(3) [unfolded key calls]
    from get_inserted_node [OF c after_get(2) obtained [unfolded key] run held] after_get.prems
    have "T = currentTs" and "v = v0" by auto
    with inserted [OF after_get(1,2) obtained [unfolded key] run held] show ?thesis
      by simp
  next
    case False
    from get_keeps [OF c after_get(2,3) _ False, of r c'] after_get.prems
    have "keysToTimeAndValue c k = Some (p, T, v)" by auto
    from kept_by_get [OF after_get.IH [OF this] after_get(2,3) False held] show ?thesis .
  qed
next
  case (after_failed_get c env currentTs keyTuple e c' calls)
  from reachable_consistent_capacity [OF after_failed_get(1)] have c: "consistent c" ..
  have held: "keysToTimeAndValue c' k \<noteq> None"
    using after_failed_get.prems by simp
  show ?case
  proof (cases "k \<in> set calls")
    case True
    with get_calls_key [OF after_failed_get(3)] have key: "keyTuple = k" and calls: "calls \<noteq> []"
      by auto
    from get_thrown_after_obtaining [OF c after_failed_get(2,3) calls] key held
    show ?thesis by simp
  next
    case False
    from get_keeps [OF c after_failed_get(2,3) _ False, of _ c' e] after_failed_get.prems
    have "keysToTimeAndValue c k = Some (p, T, v)" by auto
    from kept_by_failed_get [OF after_failed_get.IH [OF this] after_failed_get(2,3) False held]
    show ?thesis .
  qed
next
  case (after_cleanup c currentTs maxOperations c')
  from reachable_consistent_capacity [OF after_cleanup(1)] have c: "consistent c" ..
  have held: "keysToTimeAndValue c' k \<noteq> None"
    using after_cleanup.prems by simp
  from after_cleanup(2) have "cleanup_n currentTs (unat maxOperations) c = Some c'"
    by (simp add: cleanup_def cleanupWithoutLocking_n)
  from cleanup_n_keeps [OF c this, of k] after_cleanup.prems
  have "keysToTimeAndValue c k = Some (p, T, v)" by auto
  from kept_by_cleanup [OF after_cleanup.IH [OF this] after_cleanup(2) held] show ?case .
next
  case (after_erase c keyTuple c')
  from reachable_consistent_capacity [OF after_erase(1)] have c: "consistent c" ..
  have held: "keysToTimeAndValue c' k \<noteq> None"
    using after_erase.prems by simp
  have "keysToTimeAndValue c' k = keysToTimeAndValue c k \<or> keysToTimeAndValue c' k = None"
  proof (cases "keysToTimeAndValue c keyTuple")
    case None
    with after_erase(2) show ?thesis
      by (simp add: erase_consistent [OF c])
  next
    case (Some entry)
    obtain q ts w where "entry = (q, ts, w)" by (cases entry)
    with Some after_erase(2) have "c' = without keyTuple q ts c"
      by (simp add: erase_consistent [OF c])
    with without_keeps [of keyTuple q ts c k] show ?thesis by simp
  qed
  with after_erase.prems have "keysToTimeAndValue c k = Some (p, T, v)" by auto
  from kept_by_erase [OF after_erase.IH [OF this] after_erase(2) held] show ?case .
qed

section \<open>The example caches\<close>

lemma at_address_ok: "allocator_ok (at_address p v)"
  by (auto simp: allocator_ok_def at_address_def split: if_splits)

lemma at_address_simps:
  "valueObtainer (at_address p v) k = Inr v"
  "movedFrom (at_address p v) w = w"
  "h p = None \<Longrightarrow> allocNode (at_address p v) h = Some p"
  "allocTime (at_address p v)"
  by (simp_all add: at_address_def)

lemma cleanup_body_cache_A: "cleanup_body 0 cache_A = Break cache_A"
  by (simp add: cleanup_body_def cache_A_def)

lemma get_cache_A:
  "get (at_address 100 ''A!'') 0 ''A'' (LruCacheBase 10 2) = (Return ''A!'' cache_A, [''A''])"
proof -
  have "with_entry ''A'' 100 0 ''A!'' (LruCacheBase 10 2) = cache_A"
    by (simp add: with_entry_def LruCacheBase_def cache_A_def)
  then have "cleanup_n 0 (Suc (Suc (Suc 0))) (with_entry ''A'' 100 0 ''A!'' (LruCacheBase 10 2))
      = Some cache_A"
    by (simp add: cleanup_body_cache_A)
  from get_miss_inserts [OF constructed_consistent _ at_address_simps(1) _ _ at_address_simps(4) this]
  show ?thesis
    by (simp add: at_address_simps LruCacheBase_def)
qed

lemma reachable_cache_A: "reachable cache_A"
  using after_get [OF constructed at_address_ok get_cache_A] .

lemma reachable_cache_1: "reachable cache_1"
proof -
  have "cleanup_n 0 (Suc (Suc (Suc 0))) (with_entry 1 100 0 ''one'' (LruCacheBase 10 2))
      = Some cache_1"
    by (simp add: with_entry_def LruCacheBase_def cache_1_def cleanup_body_def)
  from get_miss_inserts [OF constructed_consistent _ at_address_simps(1) _ _ at_address_simps(4) this]
  have "get (at_address 100 ''one'') 0 1 (LruCacheBase 10 2) = (Return ''one'' cache_1, [1])"
    by (simp add: at_address_simps LruCacheBase_def)
  from after_get [OF constructed at_address_ok this] show ?thesis .
qed

lemma reachable_cache_tie: "reachable cache_tie"
proof -
  from reachable_consistent_capacity [OF reachable_cache_1] have c: "consistent cache_1" ..
  have "cleanup_n 0 (Suc (Suc (Suc 0))) (with_entry 2 50 0 ''two'' cache_1) = Some cache_tie"
    by (simp add: with_entry_def cache_1_def cache_tie_def cleanup_body_def)
  from get_miss_inserts [OF c _ at_address_simps(1) _ _ at_address_simps(4) this]
  have "get (at_address 50 ''two'') 0 2 cache_1 = (Return ''two'' cache_tie, [2])"
    by (simp add: at_address_simps cache_1_def)
  from after_get [OF reachable_cache_1 at_address_ok this] show ?thesis .
qed

lemma cached_since_cache_A: "cached_since ''A'' 0 ''A!'' cache_A"
proof -
  have held: "keysToTimeAndValue cache_A ''A'' \<noteq> None"
    by (simp add: cache_A_def)
  have first: "cached_since ''A'' 0 ''A!'' cache_A"
    by (rule inserted [OF constructed at_address_ok at_address_simps(1) get_cache_A held])
  have "cleanup 5 3 cache_A = Some cache_A"
    by (simp add: cleanup_def cleanupWithoutLocking_few cleanup_body_def cache_A_def)
  from kept_by_cleanup [OF first this held] show ?thesis .
qed

section \<open>The claims\<close>

text \<open>
  C1. In every state a cache reaches from the constructor through completed calls of
  \<open>get\<close>, \<open>cleanup\<close> and \<open>erase\<close>, the two containers correspond one to one: for every key of
  the map, exactly one pair of the set points to its key object, and that pair carries
  the time stamp stored with the key; and every pair of the set points to the key object
  of a key of the map that is stored with the time stamp of the pair.
\<close>

theorem index_consistency:
  assumes "reachable c"
  shows "(\<forall>k p ts v. keysToTimeAndValue c k = Some (p, ts, v) \<longrightarrow> entries_for k c = [(ts, p)]) \<and>
         (\<forall>ts p. (ts, p) \<in> set (timeToKeys c) \<longrightarrow>
            (\<exists>k v. keyObjects c p = Some k \<and> keysToTimeAndValue c k = Some (p, ts, v)))"
proof -
  from reachable_consistent_capacity [OF assms] have c: "consistent c" ..
  show ?thesis
    using consistent_entries_for [OF c] consistent_pair [OF c] by blast
qed

theorem index_consistency_witness:
  "reachable cache_A \<and> entries_for ''A'' cache_A = [(0, 100)] \<and>
   (\<exists>k v. keyObjects cache_A 100 = Some k \<and> keysToTimeAndValue cache_A k = Some (100, 0, v))"
proof -
  have "keysToTimeAndValue cache_A ''A'' = Some (100, 0, ''A!'')"
    and "(0, 100) \<in> set (timeToKeys cache_A)"
    by (simp_all add: cache_A_def)
  with index_consistency [OF reachable_cache_A] reachable_cache_A show ?thesis
    by blast
qed

text \<open>
  C2 says that on a miss \<open>get\<close> returns exactly the value the obtainer produced. At a
  \<open>Value\<close> type whose move leaves the source empty (a string) the code does not: the
  obtainer yields \<open>A!\<close> for the key A, \<open>get\<close> invokes it once, inserts (0, \<open>A!\<close>) into
  both containers, and returns the empty string, the state line 73 left \<open>value\<close> in.
  (The other parts of C2 are \<open>get_miss_inserts\<close> and \<open>get_fill_present\<close> above.)
\<close>

theorem get_returns_moved_from_value:
  "get ((at_address 100 ''A!'') \<lparr>movedFrom := (\<lambda>w. [])\<rparr>) 0 ''A'' (LruCacheBase 10 2)
     = (Return [] cache_A, [''A'']) \<and>
   keysToTimeAndValue cache_A ''A'' = Some (100, 0, ''A!'')"
proof -
  let ?env = "(at_address 100 ''A!'') \<lparr>movedFrom := (\<lambda>w. [])\<rparr> :: (string, string) outside"
  have "with_entry ''A'' 100 0 ''A!'' (LruCacheBase 10 2) = cache_A"
    by (simp add: with_entry_def LruCacheBase_def cache_A_def)
  then have pass: "cleanup_n 0 (Suc (Suc (Suc 0))) (with_entry ''A'' 100 0 ''A!'' (LruCacheBase 10 2))
      = Some cache_A"
    by (simp add: cleanup_body_cache_A)
  have "get ?env 0 ''A'' (LruCacheBase 10 2) = (Return (movedFrom ?env ''A!'') cache_A, [''A''])"
    by (rule get_miss_inserts [OF constructed_consistent _ _ _ _ _ pass])
      (simp_all add: at_address_def LruCacheBase_def)
  then show ?thesis
    by (simp add: cache_A_def)
qed

text \<open>
  C3, as the code has it. For a key whose entry was inserted by a \<open>get\<close> at time \<open>T\<close> and
  has been cached ever since (no pass evicted it, no \<open>erase\<close> removed it and no later \<open>get\<close>
  put a new entry in its place), the map holds the value the obtainer produced with the
  time stamp \<open>T\<close>; \<open>get\<close> at a time \<open>T' \<le> T + maxTime\<close> returns that value without invoking
  the obtainer, the boundary \<open>T' = T + maxTime\<close> included, and \<open>get\<close> at a time
  \<open>T' > T + maxTime\<close> invokes the obtainer. (By \<open>reachable_cached_since\<close> every entry of a
  cache one thread reaches has such a history, with \<open>T\<close> its time stamp.)
\<close>

theorem freshness:
  assumes "cached_since k T v c"
  shows "reachable c \<and> (\<exists>p. keysToTimeAndValue c k = Some (p, T, v)) \<and>
         (\<forall>env T'. T' \<le> T + maxTime c \<longrightarrow> get env T' k c = (Return v c, [])) \<and>
         (\<forall>env T'. T + maxTime c < T' \<longrightarrow> snd (get env T' k c) = [k])"
proof -
  from cached_since_node [OF assms] obtain p
    where r: "reachable c" and node: "keysToTimeAndValue c k = Some (p, T, v)"
    by blast
  from reachable_consistent_capacity [OF r] have c: "consistent c" ..
  have "get env T' k c = (Return v c, [])" if "T' \<le> T + maxTime c" for env T'
    using that by (rule get_fresh [OF node])
  moreover have "snd (get env T' k c) = [k]" if "T + maxTime c < T'" for env T'
    using that by (simp add: get_stale [OF c node] get_obtain_calls)
  ultimately show ?thesis
    using r node by blast
qed

theorem freshness_witness:
  "cached_since ''A'' 0 ''A!'' cache_A \<and>
   get (at_address 200 ''new'') 9 ''A'' cache_A = (Return ''A!'' cache_A, []) \<and>
   get (at_address 200 ''new'') 10 ''A'' cache_A = (Return ''A!'' cache_A, []) \<and>
   snd (get (at_address 200 ''new'') 11 ''A'' cache_A) = [''A'']"
proof -
  have age: "maxTime cache_A = 10"
    by (simp add: cache_A_def)
  from freshness [OF cached_since_cache_A] cached_since_cache_A age
  show ?thesis by simp
qed

text \<open>
  C3 as stated fails in two ways. At the boundary: the key A was inserted at time 0 with
  the maximal age 10, and \<open>get\<close> at time 10 = 0 + 10 does not invoke the obtainer. And
  for an entry that is no longer cached: with capacity 0 the pass of the inserting \<open>get\<close>
  at time 0 evicts A at once, and \<open>get\<close> at time 1 < 0 + 10 invokes the obtainer.
\<close>

theorem freshness_boundary_counterexample:
  "get (at_address 100 ''A!'') 0 ''A'' (LruCacheBase 10 2) = (Return ''A!'' cache_A, [''A'']) \<and>
   \<not> ((10 :: int) \<ge> 0 + maxTime cache_A
        \<longrightarrow> snd (get (at_address 200 ''new'') 10 ''A'' cache_A) \<noteq> []) \<and>
   get (at_address 100 ''A!'') 0 ''A'' (LruCacheBase 10 0) = (Return ''A!'' (LruCacheBase 10 0), [''A'']) \<and>
   \<not> ((1 :: int) < 0 + maxTime (LruCacheBase 10 0 :: (string, string) LruCacheBase)
        \<longrightarrow> snd (get (at_address 200 ''new'') 1 ''A''
                   (LruCacheBase 10 0 :: (string, string) LruCacheBase)) = [])"
proof -
  have "get (at_address 200 ''new'') 10 ''A'' cache_A = (Return ''A!'' cache_A, [])"
    by (rule get_fresh [where p = 100 and ts = 0]) (simp_all add: cache_A_def)
  moreover have "cleanup_n 0 (Suc (Suc (Suc 0)))
      (with_entry ''A'' 100 0 ''A!'' (LruCacheBase 10 0)) = Some (LruCacheBase 10 0)"
    by (simp add: with_entry_def LruCacheBase_def cleanup_body_def)
  from get_miss_inserts [OF constructed_consistent _ at_address_simps(1) _ _ at_address_simps(4) this]
  have "get (at_address 100 ''A!'') 0 ''A'' (LruCacheBase 10 0)
      = (Return ''A!'' (LruCacheBase 10 0), [''A''])"
    by (simp add: at_address_simps LruCacheBase_def)
  moreover have "snd (get (at_address 200 ''new'') 1 ''A''
      (LruCacheBase 10 0 :: (string, string) LruCacheBase)) = [''A'']"
    by (simp add: get_absent get_obtain_calls LruCacheBase_def)
  moreover have "maxTime cache_A = 10"
    and "maxTime (LruCacheBase 10 0 :: (string, string) LruCacheBase) = 10"
    by (simp_all add: cache_A_def LruCacheBase_def)
  ultimately show ?thesis
    by (simp add: get_cache_A)
qed




text \<open>
  C5. In every state a cache reaches from the constructor through completed calls of
  \<open>get\<close> (each with its eviction pass of 3 after the insertion), \<open>cleanup\<close> and \<open>erase\<close>, the
  number of entries, which is the same in both containers, is at most \<open>maxElements\<close>;
  so it is at most \<open>maxElements + 1\<close>, and does not exceed \<open>maxElements\<close> by more than the
  budget of 3. Inside \<open>get\<close>, between the insertion and the eviction pass, it is at most
  \<open>maxElements + 1\<close>.
\<close>

theorem capacity_bound:
  assumes "reachable c"
  shows "card (dom (keysToTimeAndValue c)) = length (timeToKeys c) \<and>
         card (dom (keysToTimeAndValue c)) \<le> unat (maxElements c) \<and>
         card (dom (keysToTimeAndValue c)) \<le> unat (maxElements c) + 1 \<and>
         card (dom (keysToTimeAndValue c)) \<le> unat (maxElements c) + 3 \<and>
         length (timeToKeys (with_entry k p ts v c)) \<le> unat (maxElements c) + 1"
  using reachable_consistent_capacity [OF assms] card_keys [of c]
  by (simp add: with_entry_def)

theorem capacity_bound_witness:
  "reachable cache_tie \<and> card (dom (keysToTimeAndValue cache_tie)) = 2 \<and>
   card (dom (keysToTimeAndValue cache_tie)) \<le> unat (maxElements cache_tie)"
proof -
  have "length (timeToKeys cache_tie) = 2"
    by (simp add: cache_tie_def)
  with capacity_bound [OF reachable_cache_tie, of 3 300 5 "''three''"] reachable_cache_tie
  show ?thesis by simp
qed

text \<open>
  C6. When the key is absent at the second lookup and the insertion into the map throws,
  or the insertion into the set throws after the node of the map was inserted, the
  exception reaches the caller of \<open>get\<close> and the cache is exactly the one before the
  insertion: the node inserted into the map is erased again, the set was not changed,
  and (the cache being consistent) no pair of the set points to the key.
\<close>

theorem insertion_rollback:
  assumes "allocator_ok env" and "keysToTimeAndValue c k = None"
    and "allocNode env (keyObjects c) = None \<or> \<not> allocTime env"
  shows "get_fill env currentTs k value c = Throw ResourceExhaustion c \<and>
         (valueObtainer env k = Inr value
            \<longrightarrow> get env currentTs k c = (Throw ResourceExhaustion c, [k])) \<and>
         (consistent c \<longrightarrow> entries_for k c = [])"
proof -
  have fill: "get_fill env currentTs k value c = Throw ResourceExhaustion c"
  proof (cases "allocNode env (keyObjects c)")
    case None
    with assms(2) show ?thesis by (simp add: get_fill_def)
  next
    case (Some p)
    with assms(1) have "keyObjects c p = None"
      by (auto simp: allocator_ok_def)
    then have "(keyObjects c)(p := None) = keyObjects c"
      by auto
    moreover have "(keysToTimeAndValue c)(k := None) = keysToTimeAndValue c"
      using assms(2) by auto
    ultimately show ?thesis
      using Some assms(2,3) by (simp add: get_fill_def Let_def)
  qed
  then show ?thesis
    using assms(2) absent_entries_for [OF _ assms(2)]
    by (simp add: get_absent get_obtain_def)
qed

theorem insertion_rollback_witness:
  "allocator_ok ((at_address 200 ''B!'') \<lparr>allocTime := False\<rparr> :: (string, string) outside) \<and>
   keysToTimeAndValue cache_A ''B'' = None \<and>
   \<not> allocTime ((at_address 200 ''B!'') \<lparr>allocTime := False\<rparr> :: (string, string) outside) \<and>
   allocNode ((at_address 200 ''B!'') \<lparr>allocTime := False\<rparr>) (keyObjects cache_A) = Some 200 \<and>
   get ((at_address 200 ''B!'') \<lparr>allocTime := False\<rparr>) 1 ''B'' cache_A
     = (Throw ResourceExhaustion cache_A, [''B'']) \<and>
   consistent cache_A \<and> entries_for ''B'' cache_A = []"
proof -
  let ?env = "(at_address 200 ''B!'') \<lparr>allocTime := False\<rparr> :: (string, string) outside"
  have ok: "allocator_ok ?env"
    using at_address_ok [of 200 "''B!''"] by (simp add: allocator_ok_def)
  have absent: "keysToTimeAndValue cache_A ''B'' = None"
    by (simp add: cache_A_def)
  have fails: "allocNode ?env (keyObjects cache_A) = None \<or> \<not> allocTime ?env"
    by simp
  have node: "allocNode ?env (keyObjects cache_A) = Some 200"
    by (simp add: at_address_def cache_A_def)
  have obtained: "valueObtainer ?env ''B'' = Inr ''B!''"
    by (simp add: at_address_def)
  from reachable_consistent_capacity [OF reachable_cache_A] have c: "consistent cache_A" ..
  from insertion_rollback [OF ok absent fails, of 1 "''B!''"] ok absent node obtained c
  show ?thesis by simp
qed

text \<open>
  C7. When the map holds the key with a time stamp \<open>ts\<close> such that
  \<open>ts + maxTime \<ge> currentTs\<close>, \<open>get\<close> returns the stored value, the cache is exactly the one
  before the call (no entry inserted, removed or stamped again, no eviction pass), and
  the obtainer was not invoked.
\<close>

theorem fresh_hit_frame:
  assumes "keysToTimeAndValue c k = Some (p, ts, v)" and "currentTs \<le> ts + maxTime c"
  shows "get env currentTs k c = (Return v c, [])"
  using assms by (rule get_fresh)

theorem fresh_hit_frame_witness:
  "keysToTimeAndValue cache_A ''A'' = Some (100, 0, ''A!'') \<and> (10 :: int) \<le> 0 + maxTime cache_A \<and>
   get (at_address 200 ''other'') 10 ''A'' cache_A = (Return ''A!'' cache_A, [])"
proof -
  have node: "keysToTimeAndValue cache_A ''A'' = Some (100, 0, ''A!'')"
    and fresh: "(10 :: int) \<le> 0 + maxTime cache_A"
    by (simp_all add: cache_A_def)
  from fresh_hit_frame [OF node fresh] node fresh show ?thesis
    by blast
qed

text \<open>
  C8. On every cache a single thread can reach, \<open>erase\<close> returns (no assertion fails),
  with the key taken out of the map and the pairs that point to its key object taken out
  of the set, whatever the time stamp of the entry and the size of the cache; with no
  entry for the key the cache is unchanged; and a second \<open>erase\<close> of the same key returns
  as well and changes nothing.
\<close>

theorem erase_semantics:
  assumes "reachable c"
  shows "\<exists>c'. erase k c = Some c' \<and>
           keysToTimeAndValue c' = (keysToTimeAndValue c)(k := None) \<and>
           timeToKeys c' = filter (\<lambda>(ts, p). keyObjects c p \<noteq> Some k) (timeToKeys c) \<and>
           entries_for k c' = [] \<and>
           (keysToTimeAndValue c k = None \<longrightarrow> c' = c) \<and>
           erase k c' = Some c'"
proof -
  from reachable_consistent_capacity [OF assms] have c: "consistent c" ..
  show ?thesis
  proof (cases "keysToTimeAndValue c k")
    case None
    then have "(keysToTimeAndValue c)(k := None) = keysToTimeAndValue c"
      by auto
    with None absent_timeToKeys [OF c None] absent_entries_for [OF c None] show ?thesis
      by (simp add: erase_absent_again)
  next
    case (Some node)
    obtain p ts v where node: "keysToTimeAndValue c k = Some (p, ts, v)"
      using Some by (cases node) auto
    let ?c' = "without k p ts c"
    have "erase k c = Some ?c'"
      using node by (simp add: erase_consistent [OF c])
    moreover have "keysToTimeAndValue ?c' = (keysToTimeAndValue c)(k := None)"
      by (simp add: without_def)
    moreover note without_timeToKeys [OF c node]
    moreover have "entries_for k ?c' = []"
      by (rule absent_entries_for [OF consistent_without [OF c node] without_absent])
    moreover have "erase k ?c' = Some ?c'"
      by (rule erase_absent_again [OF without_absent])
    ultimately show ?thesis
      using node by simp
  qed
qed

theorem erase_semantics_witness:
  "reachable cache_A \<and> erase ''A'' cache_A = Some (LruCacheBase 10 2) \<and>
   erase ''A'' (LruCacheBase 10 2 :: (string, string) LruCacheBase) = Some (LruCacheBase 10 2) \<and>
   erase ''B'' cache_A = Some cache_A"
proof -
  have "erase ''A'' cache_A = Some (LruCacheBase 10 2)"
    by (simp add: erase_def set_erase_def cache_A_def LruCacheBase_def)
  moreover have "keysToTimeAndValue cache_A ''B'' = None"
    by (simp add: cache_A_def)
  ultimately show ?thesis
    using erase_semantics [OF reachable_cache_A, of "''A''"]
      erase_semantics [OF reachable_cache_A, of "''B''"] reachable_cache_A
    by auto
qed

text \<open>
  C9. With maximal age 10 and capacity 2, \<open>get\<close> for three distinct keys A at time 0, B at
  time 1 and C at time 2 (their nodes at three distinct addresses) inserts each of them;
  the pass of budget 3 after the insertion of C evicts A and nothing else, so that
  exactly B and C are cached; and \<open>get\<close> for A at time 3, with any obtainer and allocator,
  invokes the obtainer.
\<close>

theorem eviction_scenario:
  assumes "distinct [A, B, C]" and "distinct [pA, pB, pC]"
  shows "\<exists>cA cB cC.
           get (at_address pA vA) 0 A (LruCacheBase 10 2) = (Return vA cA, [A]) \<and>
           get (at_address pB vB) 1 B cA = (Return vB cB, [B]) \<and>
           dom (keysToTimeAndValue cB) = {A, B} \<and>
           get (at_address pC vC) 2 C cB = (Return vC cC, [C]) \<and>
           dom (keysToTimeAndValue cC) = {B, C} \<and>
           keysToTimeAndValue cC B = Some (pB, 1, vB) \<and>
           keysToTimeAndValue cC C = Some (pC, 2, vC) \<and>
           timeToKeys cC = [(1, pB), (2, pC)] \<and>
           (\<forall>env. snd (get env 3 A cC) = [A])"
proof -
  let ?c0 = "LruCacheBase 10 2 :: ('a, 'b) LruCacheBase"
  let ?cA = "with_entry A pA 0 vA ?c0"
  let ?cB = "with_entry B pB 1 vB ?cA"
  let ?cC = "without A pA 0 (with_entry C pC 2 vC ?cB)"
  from assms have ne: "A \<noteq> B" "A \<noteq> C" "B \<noteq> C" "pA \<noteq> pB" "pA \<noteq> pC" "pB \<noteq> pC"
    by auto
  have passA: "cleanup_n 0 (Suc (Suc (Suc 0))) ?cA = Some ?cA"
    by (simp add: with_entry_def LruCacheBase_def cleanup_body_def)
  from get_miss_inserts [OF constructed_consistent _ at_address_simps(1) _ _ at_address_simps(4) this]
  have getA: "get (at_address pA vA) 0 A ?c0 = (Return vA ?cA, [A])"
    by (simp add: at_address_simps LruCacheBase_def)
  have cA: "consistent ?cA"
    using reachable_consistent_capacity [OF after_get [OF constructed at_address_ok getA]] ..
  have passB: "cleanup_n 1 (Suc (Suc (Suc 0))) ?cB = Some ?cB"
    using ne by (simp add: with_entry_def LruCacheBase_def cleanup_body_def)
  from get_miss_inserts [OF cA _ at_address_simps(1) _ _ at_address_simps(4) this]
  have getB: "get (at_address pB vB) 1 B ?cA = (Return vB ?cB, [B])"
    using ne by (simp add: at_address_simps with_entry_def LruCacheBase_def)
  have cB: "consistent ?cB"
    by (rule consistent_with_entry [OF cA]) (use ne in \<open>simp_all add: with_entry_def LruCacheBase_def\<close>)
  have passC: "cleanup_n 2 (Suc (Suc (Suc 0))) (with_entry C pC 2 vC ?cB) = Some ?cC"
    using ne by (simp add: with_entry_def without_def LruCacheBase_def cleanup_body_def)
  from get_miss_inserts [OF cB _ at_address_simps(1) _ _ at_address_simps(4) this]
  have getC: "get (at_address pC vC) 2 C ?cB = (Return vC ?cC, [C])"
    using ne by (simp add: at_address_simps with_entry_def LruCacheBase_def)
  have domB: "dom (keysToTimeAndValue ?cB) = {A, B}"
    by (auto simp: with_entry_def LruCacheBase_def)
  have domC: "dom (keysToTimeAndValue ?cC) = {B, C}"
    using ne by (auto simp: with_entry_def without_def LruCacheBase_def)
  have nodes: "keysToTimeAndValue ?cC B = Some (pB, 1, vB)"
    "keysToTimeAndValue ?cC C = Some (pC, 2, vC)"
    using ne by (simp_all add: with_entry_def without_def LruCacheBase_def)
  have times: "timeToKeys ?cC = [(1, pB), (2, pC)]"
    by (simp add: with_entry_def without_def LruCacheBase_def)
  have miss: "snd (get env 3 A ?cC) = [A]" for env
    by (simp add: get_absent [OF without_absent] get_obtain_calls)
  from getA getB domB getC domC nodes times miss show ?thesis
    by blast
qed

theorem eviction_scenario_witness:
  "distinct [''A'', ''B'', ''C''] \<and> distinct [100 :: nat, 200, 300] \<and>
   (\<exists>cA cB cC.
      get (at_address 100 ''a'') 0 ''A'' (LruCacheBase 10 2) = (Return ''a'' cA, [''A'']) \<and>
      get (at_address 200 ''b'') 1 ''B'' cA = (Return ''b'' cB, [''B'']) \<and>
      dom (keysToTimeAndValue cB) = {''A'', ''B''} \<and>
      get (at_address 300 ''c'') 2 ''C'' cB = (Return ''c'' cC, [''C'']) \<and>
      dom (keysToTimeAndValue cC) = {''B'', ''C''} \<and>
      keysToTimeAndValue cC ''B'' = Some (200, 1, ''b'') \<and>
      keysToTimeAndValue cC ''C'' = Some (300, 2, ''c'') \<and>
      timeToKeys cC = [(1, 200), (2, 300)] \<and>
      (\<forall>env. snd (get env 3 ''A'' cC) = [''A'']))"
proof -
  have keys: "distinct [''A'', ''B'', ''C'']" and addresses: "distinct [100 :: nat, 200, 300]"
    by simp_all
  from eviction_scenario [OF keys addresses, of "''a''" "''b''" "''c''"] keys addresses
  show ?thesis by blast
qed

text \<open>
  C10. When \<open>get\<close> finds a stale entry for the key (\<open>ts + maxTime < currentTs\<close>) and the
  obtainer then throws, the exception reaches the caller and the cache left behind is
  the one with the entry taken out of both containers, which is not the cache before the
  call: the map has no entry for the key, no pair of the set points to it, and any later
  \<open>get\<close> for the key invokes the obtainer.
\<close>

theorem stale_entry_gone_when_obtainer_throws:
  assumes "reachable c" and "keysToTimeAndValue c k = Some (p, ts, v)"
    and "ts + maxTime c < currentTs" and "valueObtainer env k = Inl e"
  shows "get env currentTs k c = (Throw e (without k p ts c), [k]) \<and>
         without k p ts c \<noteq> c \<and>
         keysToTimeAndValue (without k p ts c) k = None \<and>
         entries_for k (without k p ts c) = [] \<and>
         (\<forall>env' currentTs'. snd (get env' currentTs' k (without k p ts c)) = [k])"
proof -
  from reachable_consistent_capacity [OF assms(1)] have c: "consistent c" ..
  have "get env currentTs k c = (Throw e (without k p ts c), [k])"
    using assms(4) by (simp add: get_stale [OF c assms(2,3)] get_obtain_def)
  moreover have "entries_for k (without k p ts c) = []"
    by (rule absent_entries_for [OF consistent_without [OF c assms(2)] without_absent])
  moreover have "snd (get env' currentTs' k (without k p ts c)) = [k]" for env' currentTs'
    by (simp add: get_absent [OF without_absent] get_obtain_calls)
  ultimately show ?thesis
    using without_changes [OF assms(2)] without_absent [of k p ts c] by blast
qed

theorem stale_entry_gone_when_obtainer_throws_witness:
  "reachable cache_A \<and> keysToTimeAndValue cache_A ''A'' = Some (100, 0, ''A!'') \<and>
   0 + maxTime cache_A < 11 \<and>
   get \<lparr>valueObtainer = (\<lambda>k. Inl ObtainerFailure), movedFrom = (\<lambda>w. w),
        allocNode = (\<lambda>h. Some 200), allocTime = True\<rparr> 11 ''A'' cache_A
     = (Throw ObtainerFailure (LruCacheBase 10 2), [''A''])"
proof -
  let ?env = "\<lparr>valueObtainer = (\<lambda>k :: string. Inl ObtainerFailure :: exn + string),
                movedFrom = (\<lambda>w. w), allocNode = (\<lambda>h. Some 200), allocTime = True\<rparr>"
  have node: "keysToTimeAndValue cache_A ''A'' = Some (100, 0, ''A!'')"
    and stale: "0 + maxTime cache_A < 11"
    and throws: "valueObtainer ?env ''A'' = Inl ObtainerFailure"
    by (simp_all add: cache_A_def)
  have "without ''A'' 100 0 cache_A = LruCacheBase 10 2"
    by (simp add: without_def cache_A_def LruCacheBase_def)
  with stale_entry_gone_when_obtainer_throws [OF reachable_cache_A node stale throws]
    reachable_cache_A node stale
  show ?thesis by simp
qed

end
